theory Spec2Isabelle
  imports Main "HOL-Library.Sublist"
begin

section \<open>Strings of the host language\<close>

text \<open>
  Transcripts, names and numbers are strings of the host language. They are modelled as
  HOL strings, one \<^typ>\<open>char\<close> per code unit, so the model covers the code units
  below 256. Within that range the white space of \<^verbatim>\<open>trim()\<close> and of the
  regular-expression escape \<^verbatim>\<open>\s\<close> is TAB, LF, VT, FF, CR, SPACE and the
  no-break space; \<^verbatim>\<open>toLowerCase()\<close> maps A-Z and the accented capitals
  of Latin-1 (all of 0xC0-0xDE but the multiplication sign) to their small letters.
\<close>

definition isWhiteSpace :: "char \<Rightarrow> bool" where
  "isWhiteSpace c = (of_char c \<in> {9::nat, 10, 11, 12, 13, 32, 160})"

definition inRange :: "char \<Rightarrow> char \<Rightarrow> char \<Rightarrow> bool" where
  "inRange lo hi c = ((of_char lo :: nat) \<le> of_char c \<and> (of_char c :: nat) \<le> of_char hi)"

definition isDigit :: "char \<Rightarrow> bool" where
  "isDigit c = inRange CHR ''0'' CHR ''9'' c"

definition isWordChar :: "char \<Rightarrow> bool" where
  "isWordChar c = (inRange CHR ''a'' CHR ''z'' c \<or> inRange CHR ''A'' CHR ''Z'' c
                   \<or> isDigit c \<or> c = CHR ''_'')"

definition toLowerChar :: "char \<Rightarrow> char" where
  "toLowerChar c = (let n = (of_char c :: nat) in
     if (65 \<le> n \<and> n \<le> 90) \<or> (192 \<le> n \<and> n \<le> 222 \<and> n \<noteq> 215)
     then char_of (n + 32) else c)"

definition toUpperChar :: "char \<Rightarrow> char" where
  "toUpperChar c = (let n = (of_char c :: nat) in
     if (97 \<le> n \<and> n \<le> 122) \<or> (224 \<le> n \<and> n \<le> 254 \<and> n \<noteq> 247)
     then char_of (n - 32) else c)"

definition toLowerCase :: "string \<Rightarrow> string" where
  "toLowerCase s = map toLowerChar s"

definition trim :: "string \<Rightarrow> string" where
  "trim s = rev (dropWhile isWhiteSpace (rev (dropWhile isWhiteSpace s)))"

definition startsWith :: "string \<Rightarrow> string \<Rightarrow> bool" where
  "startsWith s p = prefix p s"

text \<open>
  \<^verbatim>\<open>s.split(/\s+/)\<close>: the pieces between the maximal runs of white space. A run at
  the start or at the end leaves an empty piece there, and the empty string splits into
  one empty piece.
\<close>

function split_ws :: "string \<Rightarrow> string list" where
  "split_ws s =
     (let w = takeWhile (\<lambda>c. \<not> isWhiteSpace c) s;
          r = dropWhile (\<lambda>c. \<not> isWhiteSpace c) s
      in if r = [] then [w] else w # split_ws (dropWhile isWhiteSpace r))"
  by pat_completeness auto
termination
proof (relation "measure length")
  show "wf (measure length)" by simp
next
  fix s :: string and w r
  assume r: "r = dropWhile (\<lambda>c. \<not> isWhiteSpace c) s" and ne: "r \<noteq> []"
  have "length (dropWhile isWhiteSpace r) < length r"
  proof (cases r)
    case Nil
    with ne show ?thesis by simp
  next
    case (Cons x xs)
    with r have "dropWhile (\<lambda>c. \<not> isWhiteSpace c) s = x # xs" by simp
    then have "isWhiteSpace x"
      by (simp add: dropWhile_eq_Cons_conv)
    with Cons show ?thesis
      using length_dropWhile_le [of isWhiteSpace xs] by simp
  qed
  moreover have "length r \<le> length s"
    using r length_dropWhile_le by simp
  ultimately show "(dropWhile isWhiteSpace r, s) \<in> measure length" by simp
qed

declare split_ws.simps [simp del]

section \<open>Regular expressions\<close>

text \<open>
  The regular expressions of the source are kept as syntax trees and run by a
  backtracking matcher: \<open>ms\<close> lists, in the order the engine tries them, every way a
  pattern can match at the front of the remaining input, each with the capture groups
  set so far and the input left over. A match is the first entry of that list.
  Quantifiers occur in the source only on single characters and character classes
  (\<open>Repeat\<close>, with its bounds and whether it is greedy) and as \<^verbatim>\<open>?\<close> on a group
  or a character (\<open>Optional\<close>).

  Under the flag \<^verbatim>\<open>i\<close> (and without \<^verbatim>\<open>u\<close>) two characters match when their
  upper-case forms agree, and a character beyond ASCII never matches an ASCII one.
\<close>

datatype cset = CChar char | CRange char char | CDigit | CSpace | CWord

fun members :: "cset \<Rightarrow> char \<Rightarrow> bool" where
  "members (CChar a) c = (c = a)"
| "members (CRange lo hi) c = inRange lo hi c"
| "members CDigit c = isDigit c"
| "members CSpace c = isWhiteSpace c"
| "members CWord c = isWordChar c"

definition canonicalize :: "bool \<Rightarrow> char \<Rightarrow> char" where
  "canonicalize ic c = (if ic then toUpperChar c else c)"

definition inClass :: "bool \<Rightarrow> cset list \<Rightarrow> char \<Rightarrow> bool" where
  "inClass ic cs c =
     (\<exists>k \<in> set cs. members k c \<or> (ic \<and> (members k (toLowerChar c) \<or> members k (toUpperChar c))))"

datatype regex =
    Chars string
  | Class "cset list"
  | Repeat "cset list" nat "nat option" bool
  | Optional regex
  | Seq regex regex
  | Alt regex regex
  | Group nat regex
  | Bol
  | Eol

type_synonym captures = "string option list"

definition repeatCounts :: "nat \<Rightarrow> nat option \<Rightarrow> bool \<Rightarrow> nat \<Rightarrow> nat list" where
  "repeatCounts lo hi greedy avail =
     (let top = (case hi of None \<Rightarrow> avail | Some h \<Rightarrow> min h avail);
          up = [lo ..< Suc top]
      in if greedy then rev up else up)"

fun ms :: "bool \<Rightarrow> string \<Rightarrow> regex \<Rightarrow> captures \<times> string \<Rightarrow> (captures \<times> string) list" where
  "ms ic inp (Chars p) (c, s) =
     (if length p \<le> length s
         \<and> map (canonicalize ic) (take (length p) s) = map (canonicalize ic) p
      then [(c, drop (length p) s)] else [])"
| "ms ic inp (Class cs) (c, s) =
     (case s of [] \<Rightarrow> [] | x # xs \<Rightarrow> if inClass ic cs x then [(c, xs)] else [])"
| "ms ic inp (Repeat cs lo hi greedy) (c, s) =
     map (\<lambda>j. (c, drop j s))
         (repeatCounts lo hi greedy (length (takeWhile (inClass ic cs) s)))"
| "ms ic inp (Optional r) st = ms ic inp r st @ [st]"
| "ms ic inp (Seq r1 r2) st = concat (map (ms ic inp r2) (ms ic inp r1 st))"
| "ms ic inp (Alt r1 r2) st = ms ic inp r1 st @ ms ic inp r2 st"
| "ms ic inp (Group n r) (c, s) =
     map (\<lambda>(c', s'). (c'[n := Some (take (length s - length s') s)], s'))
         (ms ic inp r (c, s))"
| "ms ic inp Bol (c, s) = (if length s = length inp then [(c, s)] else [])"
| "ms ic inp Eol (c, s) = (if s = [] then [(c, s)] else [])"

fun ngroups :: "regex \<Rightarrow> nat" where
  "ngroups (Optional r) = ngroups r"
| "ngroups (Seq r1 r2) = max (ngroups r1) (ngroups r2)"
| "ngroups (Alt r1 r2) = max (ngroups r1) (ngroups r2)"
| "ngroups (Group n r) = max n (ngroups r)"
| "ngroups (Chars p) = 0"
| "ngroups (Class cs) = 0"
| "ngroups (Repeat cs lo hi greedy) = 0"
| "ngroups Bol = 0"
| "ngroups Eol = 0"

text \<open>
  The match array of \<^verbatim>\<open>exec\<close>: entry 0 is the matched text, entry \<open>n\<close> the text of
  group \<open>n\<close>, or nothing when the group took no part. The engine tries every start
  position from the left.
\<close>

definition matchAt :: "bool \<Rightarrow> regex \<Rightarrow> string \<Rightarrow> nat \<Rightarrow> captures option" where
  "matchAt ic r inp i =
     (case ms ic inp r (replicate (Suc (ngroups r)) None, drop i inp) of
        [] \<Rightarrow> None
      | (c, rest) # _ \<Rightarrow>
          Some (c[0 := Some (take (length inp - i - length rest) (drop i inp))]))"

definition re_exec :: "bool \<Rightarrow> regex \<Rightarrow> string \<Rightarrow> captures option" where
  "re_exec ic r inp =
     (case List.find (\<lambda>i. matchAt ic r inp i \<noteq> None) [0 ..< Suc (length inp)] of
        None \<Rightarrow> None
      | Some i \<Rightarrow> matchAt ic r inp i)"

definition re_test :: "bool \<Rightarrow> regex \<Rightarrow> string \<Rightarrow> bool" where
  "re_test ic r inp = (re_exec ic r inp \<noteq> None)"

text \<open>\<^verbatim>\<open>s.replace(/[...]/g, '')\<close> with a character class: every character of the class is dropped.\<close>

definition re_strip :: "cset list \<Rightarrow> string \<Rightarrow> string" where
  "re_strip cs s = filter (\<lambda>c. \<not> inClass False cs c) s"

fun seqs :: "regex list \<Rightarrow> regex" where
  "seqs [] = Chars []"
| "seqs [r] = r"
| "seqs (r # rs) = Seq r (seqs rs)"

fun alts :: "regex list \<Rightarrow> regex" where
  "alts [] = Chars []"
| "alts [r] = r"
| "alts (r # rs) = Alt r (alts rs)"

definition some :: "cset list \<Rightarrow> regex" where
  "some cs = Repeat cs 1 None True"

text \<open>
  Reading a group of the match array as a string: the method call on a group that took
  no part throws. In the six templates of the parser every group always takes part, so
  the parser never throws (lemma \<open>parseIntent_never_throws\<close>).
\<close>

datatype js_error = TypeError

definition at :: "captures \<Rightarrow> nat \<Rightarrow> string option" where
  "at m i = (if i < length m then m ! i else None)"

definition grp :: "captures \<Rightarrow> nat \<Rightarrow> js_error + string" where
  "grp m i = (case at m i of None \<Rightarrow> Inl TypeError | Some w \<Rightarrow> Inr w)"

definition bindE :: "'e + 'a \<Rightarrow> ('a \<Rightarrow> 'e + 'b) \<Rightarrow> 'e + 'b" where
  "bindE x f = (case x of Inl e \<Rightarrow> Inl e | Inr a \<Rightarrow> f a)"

section \<open>The intent parser\<close>

datatype ParsedIntent =
    SEND_MONEY (amount: string) string
  | POCHI (amount: string) string
  | PAYBILL (amount: string) string string
  | TILL (amount: string) string
  | WITHDRAW (amount: string) string string
  | NAMED_PAYMENT (amount: string) string

text \<open>
  The fields after the amount are, in the order of the source's type:
  \<open>phone\<close> (SEND_MONEY, POCHI); \<open>business\<close>, \<open>account\<close> (PAYBILL); \<open>till\<close> (TILL);
  \<open>agent\<close>, \<open>store\<close> (WITHDRAW); \<open>contactName\<close> (NAMED_PAYMENT).
\<close>

text \<open>
  The patterns of the source (intent.ts), each as the tree the matcher runs. The three
  pieces the templates share are
  AMOUNT_RE \<^verbatim>\<open>(\d+(?:[,.]\d+)?)\<close>, PHONE_OR_NAME_RE \<^verbatim>\<open>([\w\s]+?)\<close> and
  NUMBER_RE \<^verbatim>\<open>(\d+)\<close>; a group is numbered by its place in the whole pattern. The
  six templates, all with the flag \<^verbatim>\<open>i\<close>, are in the order \<^verbatim>\<open>parseIntent\<close> tries them:
  \<^item> \<^verbatim>\<open>^send\s+AMOUNT\s+(?:shillings?|bob|kes)?\s*to\s+PHONE_OR_NAME$\<close>
  \<^item> \<^verbatim>\<open>^pochi\s+AMOUNT\s+to\s+PHONE_OR_NAME$\<close>
  \<^item> \<^verbatim>\<open>^pay\s*bill\s+NUMBER\s+account\s+NUMBER\s+(?:amount\s+)?AMOUNT$\<close>
  \<^item> \<^verbatim>\<open>^(?:pay\s+till|buy\s+goods)\s+NUMBER\s+(?:amount\s+)?AMOUNT$\<close>
  \<^item> \<^verbatim>\<open>^withdraw\s+AMOUNT\s+agent\s+NUMBER\s+store\s+NUMBER$\<close>
  \<^item> \<^verbatim>\<open>^(?:pay|buy\s+(?:at|from))\s+([a-z][a-z0-9\s]*?)\s+(?:amount\s+)?AMOUNT$\<close>
\<close>

definition AMOUNT_BODY :: regex where
  "AMOUNT_BODY =
     Seq (some [CDigit])
         (Optional (Seq (Class [CChar CHR '','', CChar CHR ''.'']) (some [CDigit])))"

definition AMOUNT_RE :: "nat \<Rightarrow> regex" where
  "AMOUNT_RE n = Group n AMOUNT_BODY"

definition PHONE_OR_NAME_RE :: "nat \<Rightarrow> regex" where
  "PHONE_OR_NAME_RE n = Group n (Repeat [CWord, CSpace] 1 None False)"

definition NUMBER_RE :: "nat \<Rightarrow> regex" where
  "NUMBER_RE n = Group n (some [CDigit])"

definition sendRe :: regex where
  "sendRe = seqs [Bol, Chars ''send'', some [CSpace], AMOUNT_RE 1, some [CSpace],
     Optional (alts [Seq (Chars ''shilling'') (Optional (Chars ''s'')), Chars ''bob'', Chars ''kes'']),
     Repeat [CSpace] 0 None True, Chars ''to'', some [CSpace], PHONE_OR_NAME_RE 2, Eol]"

definition pochiRe :: regex where
  "pochiRe = seqs [Bol, Chars ''pochi'', some [CSpace], AMOUNT_RE 1, some [CSpace],
     Chars ''to'', some [CSpace], PHONE_OR_NAME_RE 2, Eol]"

definition paybillRe :: regex where
  "paybillRe = seqs [Bol, Chars ''pay'', Repeat [CSpace] 0 None True, Chars ''bill'',
     some [CSpace], NUMBER_RE 1, some [CSpace], Chars ''account'', some [CSpace],
     NUMBER_RE 2, some [CSpace], Optional (Seq (Chars ''amount'') (some [CSpace])),
     AMOUNT_RE 3, Eol]"

definition tillRe :: regex where
  "tillRe = seqs [Bol,
     Alt (seqs [Chars ''pay'', some [CSpace], Chars ''till''])
         (seqs [Chars ''buy'', some [CSpace], Chars ''goods'']),
     some [CSpace], NUMBER_RE 1, some [CSpace],
     Optional (Seq (Chars ''amount'') (some [CSpace])), AMOUNT_RE 2, Eol]"

definition withdrawRe :: regex where
  "withdrawRe = seqs [Bol, Chars ''withdraw'', some [CSpace], AMOUNT_RE 1, some [CSpace],
     Chars ''agent'', some [CSpace], NUMBER_RE 2, some [CSpace], Chars ''store'',
     some [CSpace], NUMBER_RE 3, Eol]"

definition namedRe :: regex where
  "namedRe = seqs [Bol,
     Alt (Chars ''pay'')
         (seqs [Chars ''buy'', some [CSpace], Alt (Chars ''at'') (Chars ''from'')]),
     some [CSpace],
     Group 1 (Seq (Class [CRange CHR ''a'' CHR ''z''])
                  (Repeat [CRange CHR ''a'' CHR ''z'', CRange CHR ''0'' CHR ''9'', CSpace] 0 None False)),
     some [CSpace], Optional (Seq (Chars ''amount'') (some [CSpace])), AMOUNT_RE 2, Eol]"

definition normalizeAmount :: "string \<Rightarrow> string" where
  "normalizeAmount raw = filter (\<lambda>c. c \<noteq> CHR '','') raw"

definition parseIntent :: "string \<Rightarrow> js_error + ParsedIntent option" where
  "parseIntent transcript =
     (let t = trim transcript in
      case re_exec True sendRe t of
        Some sendMatch \<Rightarrow>
          bindE (grp sendMatch 1) (\<lambda>a. bindE (grp sendMatch 2) (\<lambda>p.
            Inr (Some (SEND_MONEY (normalizeAmount a) (trim p)))))
      | None \<Rightarrow>
     (case re_exec True pochiRe t of
        Some pochiMatch \<Rightarrow>
          bindE (grp pochiMatch 1) (\<lambda>a. bindE (grp pochiMatch 2) (\<lambda>p.
            Inr (Some (POCHI (normalizeAmount a) (trim p)))))
      | None \<Rightarrow>
     (case re_exec True paybillRe t of
        Some paybillMatch \<Rightarrow>
          bindE (grp paybillMatch 3) (\<lambda>a. bindE (grp paybillMatch 1) (\<lambda>b.
            bindE (grp paybillMatch 2) (\<lambda>acc.
              Inr (Some (PAYBILL (normalizeAmount a) b acc)))))
      | None \<Rightarrow>
     (case re_exec True tillRe t of
        Some tillMatch \<Rightarrow>
          bindE (grp tillMatch 2) (\<lambda>a. bindE (grp tillMatch 1) (\<lambda>n.
            Inr (Some (TILL (normalizeAmount a) n))))
      | None \<Rightarrow>
     (case re_exec True withdrawRe t of
        Some withdrawMatch \<Rightarrow>
          bindE (grp withdrawMatch 1) (\<lambda>a. bindE (grp withdrawMatch 2) (\<lambda>ag.
            bindE (grp withdrawMatch 3) (\<lambda>st.
              Inr (Some (WITHDRAW (normalizeAmount a) ag st)))))
      | None \<Rightarrow>
     (case re_exec True namedRe t of
        Some namedMatch \<Rightarrow>
          bindE (grp namedMatch 1) (\<lambda>n. bindE (grp namedMatch 2) (\<lambda>a.
            Inr (Some (NAMED_PAYMENT (normalizeAmount a) (trim n)))))
      | None \<Rightarrow> Inr None))))))"


text \<open>Human-readable summary of a parsed intent for the spoken confirmation.\<close>

fun describeIntent :: "ParsedIntent \<Rightarrow> string" where
  "describeIntent (SEND_MONEY a p) = ''Send '' @ a @ '' shillings to '' @ p @ ''.''"
| "describeIntent (POCHI a p) = ''Pochi '' @ a @ '' shillings to '' @ p @ ''.''"
| "describeIntent (PAYBILL a b acc) =
     ''Pay bill '' @ b @ '', account '' @ acc @ '', amount '' @ a @ '' shillings.''"
| "describeIntent (TILL a n) = ''Buy goods at till '' @ n @ '', amount '' @ a @ '' shillings.''"
| "describeIntent (WITHDRAW a ag st) =
     ''Withdraw '' @ a @ '' shillings from agent '' @ ag @ '', store '' @ st @ ''.''"
| "describeIntent (NAMED_PAYMENT a n) = ''Pay '' @ a @ '' shillings to '' @ n @ ''.''"

section \<open>The contact directory\<close>

datatype ContactType = Mobile | Pochi | Till | Paybill

record VoiceContact =
  name :: string
  type :: "ContactType option"
  phone :: string
  accountNumber :: "string option"

text \<open>
  The directory (voice-contacts.ts) is the list \<^verbatim>\<open>getVoiceContacts()\<close> returns;
  \<^verbatim>\<open>persistContacts\<close> replaces it. Encryption and the browser's storage are outside the
  model. A contact's type and account number may be absent. The phone-shape test is the
  pattern \<^verbatim>\<open>^[+\d\s\-()]{7,15}$\<close>, and \<^verbatim>\<open>normalizePhone\<close> drops what
  \<^verbatim>\<open>[\s\-()]\<close> matches before it looks for the prefix +254.
\<close>

definition phoneClass :: "cset list" where
  "phoneClass = [CChar CHR ''+'', CDigit, CSpace, CChar CHR ''-'', CChar CHR ''('', CChar CHR '')'']"

definition phoneRe :: regex where
  "phoneRe = seqs [Bol, Repeat phoneClass 7 (Some 15) True, Eol]"

definition isPhoneNumber :: "string \<Rightarrow> bool" where
  "isPhoneNumber s = re_test False phoneRe s"

definition normalizePhone :: "string \<Rightarrow> string" where
  "normalizePhone ph =
     (let p = re_strip [CSpace, CChar CHR ''-'', CChar CHR ''('', CChar CHR '')''] ph
      in if startsWith p ''+254'' then ''0'' @ drop 4 p else p)"

definition isMobileType :: "VoiceContact \<Rightarrow> bool" where
  "isMobileType c = (type c = None \<or> type c = Some Mobile \<or> type c = Some Pochi)"

definition wordsOverlap :: "string \<Rightarrow> VoiceContact \<Rightarrow> bool" where
  "wordsOverlap lower c =
     (let queryWords = split_ws lower;
          nameWords = split_ws (toLowerCase (name c))
      in list_all (\<lambda>w. list_ex (\<lambda>nw. startsWith nw w) nameWords) queryWords)"

definition resolvePhoneOrName :: "VoiceContact list \<Rightarrow> string \<Rightarrow> string option" where
  "resolvePhoneOrName dir query =
     (let cleaned = trim query in
      if isPhoneNumber cleaned then Some (normalizePhone cleaned)
      else
        let contacts = filter isMobileType dir;
            lower = toLowerCase cleaned
        in case List.find (\<lambda>c. toLowerCase (name c) = lower) contacts of
             Some exact \<Rightarrow> Some (phone exact)
           | None \<Rightarrow>
          (case List.find (\<lambda>c. startsWith (toLowerCase (name c)) lower) contacts of
             Some partial \<Rightarrow> Some (phone partial)
           | None \<Rightarrow>
          (case List.find (wordsOverlap lower) contacts of
             Some overlap \<Rightarrow> Some (phone overlap)
           | None \<Rightarrow> None)))"

definition resolveContact :: "VoiceContact list \<Rightarrow> string \<Rightarrow> VoiceContact option" where
  "resolveContact dir query =
     (let contacts = dir;
          lower = toLowerCase (trim query)
      in case List.find (\<lambda>c. toLowerCase (name c) = lower) contacts of
           Some exact \<Rightarrow> Some exact
         | None \<Rightarrow>
        (case List.find (\<lambda>c. startsWith (toLowerCase (name c)) lower) contacts of
           Some partial \<Rightarrow> Some partial
         | None \<Rightarrow> List.find (wordsOverlap lower) contacts))"

fun findIndex :: "('a \<Rightarrow> bool) \<Rightarrow> 'a list \<Rightarrow> nat option" where
  "findIndex P [] = None"
| "findIndex P (x # xs) = (if P x then Some 0 else map_option Suc (findIndex P xs))"

definition saveVoiceContact :: "VoiceContact \<Rightarrow> VoiceContact list \<Rightarrow> VoiceContact list" where
  "saveVoiceContact contact contacts =
     (let ph = (if isMobileType contact then normalizePhone (phone contact)
                else re_strip [CSpace] (phone contact));
          existing = findIndex (\<lambda>c. toLowerCase (name c) = toLowerCase (name contact)) contacts;
          entry = \<lparr> name = name contact,
                    type = Some (case type contact of None \<Rightarrow> Mobile | Some t \<Rightarrow> t),
                    phone = ph,
                    accountNumber =
                      (case accountNumber contact of
                         None \<Rightarrow> None
                       | Some a \<Rightarrow> if trim a \<noteq> [] then Some (trim a) else None) \<rparr>
      in case existing of
           Some i \<Rightarrow> contacts[i := entry]
         | None \<Rightarrow> contacts @ [entry])"

section \<open>The command session\<close>

datatype VoiceCommandState =
  idle | listening | processing | confirming | awaiting_confirmation | error

text \<open>
  What the hook does to its collaborators, in the order it does it: speech synthesis
  (\<open>Speak\<close>, \<open>CancelSpeech\<close>), a contact handed to \<^verbatim>\<open>saveVoiceContact\<close>, and the two
  callbacks \<^verbatim>\<open>onDismiss\<close> and \<^verbatim>\<open>onVoiceSubmit\<close>. The state of the model holds the
  six pieces of state of the hook, the directory and the effects so far. A save is taken
  to succeed, and the directory to hold the saved contact from then on.
\<close>

datatype effect =
  Speak string | CancelSpeech | SaveContact VoiceContact | Dismiss | Submit ParsedIntent

record session =
  state :: VoiceCommandState
  transcript :: string
  pendingIntent :: "ParsedIntent option"
  errorMessage :: string
  pendingIntentRef :: "ParsedIntent option"
  transcriptRef :: string
  contacts :: "VoiceContact list"
  effects :: "effect list"

definition emit :: "effect \<Rightarrow> session \<Rightarrow> session" where
  "emit e w = w\<lparr> effects := effects w @ [e] \<rparr>"

definition reset :: "session \<Rightarrow> session" where
  "reset w = w\<lparr> state := idle, transcript := [], pendingIntent := None,
                 pendingIntentRef := None, transcriptRef := [], errorMessage := [] \<rparr>"

definition setError :: "string \<Rightarrow> session \<Rightarrow> session" where
  "setError msg w = emit (Speak msg) (w\<lparr> state := error, errorMessage := msg \<rparr>)"

text \<open>
  The patterns of the hook (use-voice-command.ts): the trailing name of a command,
  \<^verbatim>\<open>to\s+([a-z\s]+?)(?:\s*$)\<close> with the flag \<^verbatim>\<open>i\<close>, which is not anchored at the start;
  \<^verbatim>\<open>^\d\<close>; and the confirmation,
  \<^verbatim>\<open>^(yes|yeah|yep|yup|confirm|send|do it|go|ok|okay)\<close> with the flag \<^verbatim>\<open>i\<close>.
\<close>

definition nameRe :: regex where
  "nameRe = seqs [Chars ''to'', some [CSpace],
     Group 1 (Repeat [CRange CHR ''a'' CHR ''z'', CSpace] 1 None False),
     Repeat [CSpace] 0 None True, Eol]"

definition startsDigitRe :: regex where
  "startsDigitRe = Seq Bol (Class [CDigit])"

definition yesRe :: regex where
  "yesRe = Seq Bol (Group 1 (alts [Chars ''yes'', Chars ''yeah'', Chars ''yep'', Chars ''yup'',
     Chars ''confirm'', Chars ''send'', Chars ''do it'', Chars ''go'', Chars ''ok'',
     Chars ''okay'']))"

text \<open>
  \<^verbatim>\<open>executeConfirm\<close> (lines 66-86). First the auto-save: the contact it hands to the
  directory, if any. A name that is absent or empty counts as false in the condition.
\<close>

definition learnedContact :: "ParsedIntent \<Rightarrow> string \<Rightarrow> VoiceContact option" where
  "learnedContact intent raw =
     (let rawName = (case re_exec True nameRe raw of
                       None \<Rightarrow> None
                     | Some nameMatch \<Rightarrow> map_option trim (at nameMatch 1))
      in case rawName of
           None \<Rightarrow> None
         | Some n \<Rightarrow>
             if n \<noteq> [] \<and> \<not> re_test False startsDigitRe n
             then (case intent of
                     SEND_MONEY a p \<Rightarrow> Some \<lparr> name = n, type = None, phone = p, accountNumber = None \<rparr>
                   | POCHI a p \<Rightarrow> Some \<lparr> name = n, type = None, phone = p, accountNumber = None \<rparr>
                   | _ \<Rightarrow> None)
             else None)"

definition executeConfirm :: "ParsedIntent \<Rightarrow> string \<Rightarrow> session \<Rightarrow> session" where
  "executeConfirm intent raw w =
     (let w1 = (case learnedContact intent raw of
                  None \<Rightarrow> w
                | Some c \<Rightarrow> emit (SaveContact c) (w\<lparr> contacts := saveVoiceContact c (contacts w) \<rparr>));
          w2 = emit CancelSpeech w1;
          w3 = emit (Speak ''Perfect, sending now via remote push.'') w2;
          w4 = reset w3;
          w5 = emit Dismiss w4
      in emit (Submit intent) w5)"

text \<open>
  \<^verbatim>\<open>start\<close> is an asynchronous function with three points where it waits: the capture
  of the command, the spoken readback and the capture of the answer. It is modelled by
  the pieces between those points. \<open>capture\<close> is what \<^verbatim>\<open>listenOnce\<close> settles with: the
  text heard, or a failure that carries a message when the rejection is an
  \<^verbatim>\<open>Error\<close>. Whether the readback was spoken or failed makes no difference to the code.
\<close>

datatype capture = Heard string | NotHeard "string option"

text \<open>
  Where a call of \<^verbatim>\<open>start\<close> stands: it has returned, it has thrown, or it waits for the
  command, for the readback or for the answer, in the last two cases holding the intent
  and the transcript in its local variables. \<open>start_call\<close> is lines 89-107, up to the
  first capture; \<open>on_command\<close> lines 108-169 and 192-199, from the first capture to the
  readback; \<open>on_readback\<close> lines 173-176 and 205-208; \<open>on_answer\<close> lines 177-189 and
  209-225.
\<close>

datatype await =
    Returned
  | Threw js_error
  | AwaitCommand
  | AwaitReadback ParsedIntent string
  | AwaitAnswer ParsedIntent string

definition listening_from :: "session \<Rightarrow> session" where
  "listening_from w =
     (emit CancelSpeech w)\<lparr> state := listening, transcript := [], pendingIntent := None,
                             pendingIntentRef := None, transcriptRef := [], errorMessage := [] \<rparr>"

definition start_call :: "bool \<Rightarrow> session \<Rightarrow> await \<times> session" where
  "start_call isSupported w =
     (if \<not> isSupported
      then (Returned, setError
        ''Voice commands are not supported in this browser. Try Chrome or Safari.'' w)
      else (AwaitCommand, listening_from w))"

text \<open>
  Lines 125-136: a name in a SEND_MONEY or POCHI intent is resolved to a number. The
  result of the lookup is used as a condition, so the empty string counts like null.
\<close>

definition notFoundMessage :: "string \<Rightarrow> string" where
  "notFoundMessage p = ''I couldn't find '' @ [CHR 0x22] @ p @ [CHR 0x22]
     @ '' in your contacts. Add them first, or say a phone number directly.''"

definition startsWithDigit :: "string \<Rightarrow> bool" where
  "startsWithDigit p =
     re_test False startsDigitRe
       (re_strip [CSpace, CChar CHR ''-'', CChar CHR ''('', CChar CHR '')'', CChar CHR ''+''] p)"

definition resolveTarget :: "VoiceContact list \<Rightarrow> string \<Rightarrow> string + string" where
  "resolveTarget dir p =
     (case resolvePhoneOrName dir p of
        Some resolved \<Rightarrow>
          if resolved \<noteq> [] then Inr resolved
          else if \<not> startsWithDigit p then Inl (notFoundMessage p) else Inr p
      | None \<Rightarrow> if \<not> startsWithDigit p then Inl (notFoundMessage p) else Inr p)"

text \<open>Lines 139-163: a NAMED_PAYMENT is rewritten by the type of the contact it names.\<close>

definition notSavedMessage :: "string \<Rightarrow> string" where
  "notSavedMessage contactName = ''I couldn't find '' @ [CHR 0x22] @ contactName @ [CHR 0x22]
     @ '' in your contacts. Add it first under Voice Contacts.''"

definition needsAccountMessage :: "VoiceContact \<Rightarrow> string \<Rightarrow> string" where
  "needsAccountMessage contact a =
     name contact @ '' needs an account number. Edit the contact to add one, or say: pay bill ''
       @ phone contact @ '' account <number> '' @ a"

definition resolveNamed :: "VoiceContact list \<Rightarrow> string \<Rightarrow> string \<Rightarrow> string + ParsedIntent" where
  "resolveNamed dir a contactName =
     (case resolveContact dir contactName of
        None \<Rightarrow> Inl (notSavedMessage contactName)
      | Some contact \<Rightarrow>
          (case (case type contact of None \<Rightarrow> Mobile | Some t \<Rightarrow> t) of
             Till \<Rightarrow> Inr (TILL a (phone contact))
           | Paybill \<Rightarrow>
               (case accountNumber contact of
                  None \<Rightarrow> Inl (needsAccountMessage contact a)
                | Some acc \<Rightarrow>
                    if acc = [] then Inl (needsAccountMessage contact a)
                    else Inr (PAYBILL a (phone contact) acc))
           | Pochi \<Rightarrow> Inr (POCHI a (phone contact))
           | Mobile \<Rightarrow> Inr (SEND_MONEY a (phone contact))))"

definition resolveIntent :: "VoiceContact list \<Rightarrow> ParsedIntent \<Rightarrow> string + ParsedIntent" where
  "resolveIntent dir intent =
     (case intent of
        SEND_MONEY a p \<Rightarrow> map_sum id (SEND_MONEY a) (resolveTarget dir p)
      | POCHI a p \<Rightarrow> map_sum id (POCHI a) (resolveTarget dir p)
      | NAMED_PAYMENT a n \<Rightarrow> resolveNamed dir a n
      | _ \<Rightarrow> Inr intent)"

text \<open>
  Lines 164-169 and 192-199: the intent becomes the pending one, the state
  \<open>confirming\<close>, and the readback is spoken. The source has this and the next two pieces
  twice, once for a rewritten NAMED_PAYMENT and once for the other intents, with the
  same statements.
\<close>

definition readback :: "ParsedIntent \<Rightarrow> string \<Rightarrow> session \<Rightarrow> await \<times> session" where
  "readback intent raw w =
     (AwaitReadback intent raw,
      emit (Speak (describeIntent intent @ '' Say yes to confirm, or no to cancel.''))
           (w\<lparr> pendingIntent := Some intent, pendingIntentRef := Some intent,
               state := confirming \<rparr>))"

definition on_command :: "capture \<Rightarrow> session \<Rightarrow> await \<times> session" where
  "on_command cap w =
     (case cap of
        NotHeard err \<Rightarrow>
          (Returned, setError (case err of Some m \<Rightarrow> m | None \<Rightarrow> ''Could not capture audio.'') w)
      | Heard raw \<Rightarrow>
          (let w1 = w\<lparr> transcript := raw, transcriptRef := raw, state := processing \<rparr>
           in case parseIntent raw of
                Inl e \<Rightarrow> (Threw e, w1)
              | Inr None \<Rightarrow>
                  (Returned, setError
                    ''Sorry, I didn't catch that. Try: send 500 shillings to 0712345678.'' w1)
              | Inr (Some intent) \<Rightarrow>
                  (case resolveIntent (contacts w1) intent of
                     Inl msg \<Rightarrow> (Returned, setError msg w1)
                   | Inr resolved \<Rightarrow> readback resolved raw w1)))"

definition on_readback :: "ParsedIntent \<Rightarrow> string \<Rightarrow> session \<Rightarrow> await \<times> session" where
  "on_readback intent raw w = (AwaitAnswer intent raw, w\<lparr> state := awaiting_confirmation \<rparr>)"

definition on_answer :: "ParsedIntent \<Rightarrow> string \<Rightarrow> capture \<Rightarrow> session \<Rightarrow> session" where
  "on_answer intent raw cap w =
     (case cap of
        NotHeard err \<Rightarrow>
          emit (Speak ''I couldn't hear you. Tap yes or no on screen.'') (w\<lparr> state := confirming \<rparr>)
      | Heard response \<Rightarrow>
          if re_test True yesRe (trim response) then executeConfirm intent raw w
          else emit Dismiss (reset (emit (Speak ''Okay, no problem. Cancelled.'') w)))"

text \<open>
  One call of \<^verbatim>\<open>start\<close>, from the call to its return, given what the two captures
  settle with: the states of the hook at each point where the call waits, and at its
  return, in order.
\<close>

definition start :: "bool \<Rightarrow> capture \<Rightarrow> capture \<Rightarrow> session \<Rightarrow> session list" where
  "start isSupported command answer w =
     (case start_call isSupported w of
        (AwaitCommand, w1) \<Rightarrow>
          w1 # (case on_command command w1 of
                  (AwaitReadback intent raw, w2) \<Rightarrow>
                    w2 # (case on_readback intent raw w2 of
                            (AwaitAnswer intent' raw', w3) \<Rightarrow> [w3, on_answer intent' raw' answer w3]
                          | (_, w3) \<Rightarrow> [w3])
                | (_, w2) \<Rightarrow> [w2])
      | (_, w1) \<Rightarrow> [w1])"

text \<open>The taps: \<^verbatim>\<open>confirm\<close> (lines 229-235) and \<^verbatim>\<open>cancel\<close> (lines 237-242).\<close>

definition confirm :: "session \<Rightarrow> session" where
  "confirm w =
     (case pendingIntentRef w of
        None \<Rightarrow> w
      | Some intent \<Rightarrow> executeConfirm intent (transcriptRef w) (emit CancelSpeech w))"

definition cancel :: "session \<Rightarrow> session" where
  "cancel w = emit Dismiss (reset (emit (Speak ''Okay, cancelled.'') (emit CancelSpeech w)))"

definition initial :: "VoiceContact list \<Rightarrow> session" where
  "initial dir = \<lparr> state = idle, transcript = [], pendingIntent = None, errorMessage = [],
                   pendingIntentRef = None, transcriptRef = [], contacts = dir, effects = [] \<rparr>"


text \<open>
  The hook as a machine of events. Several calls of \<^verbatim>\<open>start\<close> can be waiting at once,
  and a tap can come while they wait: nothing in the hook stops a waiting call. A call
  that waits resumes when what it waits for settles, with the intent and transcript it
  holds, on the state the hook then has. \<open>Settle n x\<close> resumes the \<open>n\<close>-th waiting call
  with \<open>x\<close>: a capture for a call that waits for the command or the answer, \<open>Spoken\<close> for
  one that waits for the readback; an event that does not fit changes nothing. A call
  that returns or throws leaves the list. \<open>EditContacts\<close> stands for any change of the
  directory made elsewhere.
\<close>

datatype settled = Captured capture | Spoken

fun resume :: "await \<Rightarrow> settled \<Rightarrow> session \<Rightarrow> (await \<times> session) option" where
  "resume AwaitCommand (Captured c) w = Some (on_command c w)"
| "resume (AwaitReadback intent raw) Spoken w = Some (on_readback intent raw w)"
| "resume (AwaitAnswer intent raw) (Captured c) w = Some (Returned, on_answer intent raw c w)"
| "resume k x w = None"

fun waiting :: "await \<Rightarrow> bool" where
  "waiting AwaitCommand = True"
| "waiting (AwaitReadback intent raw) = True"
| "waiting (AwaitAnswer intent raw) = True"
| "waiting Returned = False"
| "waiting (Threw e) = False"

datatype event =
  CallStart bool | Settle nat settled | TapConfirm | TapCancel | EditContacts "VoiceContact list"

type_synonym hook = "await list \<times> session"

fun step :: "event \<Rightarrow> hook \<Rightarrow> hook" where
  "step (CallStart isSupported) (ks, w) =
     (case start_call isSupported w of
        (k, w') \<Rightarrow> (if waiting k then ks @ [k] else ks, w'))"
| "step (Settle n x) (ks, w) =
     (if n < length ks
      then (case resume (ks ! n) x w of
              None \<Rightarrow> (ks, w)
            | Some (k, w') \<Rightarrow> (if waiting k then ks[n := k] else take n ks @ drop (Suc n) ks, w'))
      else (ks, w))"
| "step TapConfirm (ks, w) = (ks, confirm w)"
| "step TapCancel (ks, w) = (ks, cancel w)"
| "step (EditContacts dir) (ks, w) = (ks, w\<lparr> contacts := dir \<rparr>)"

fun play :: "event list \<Rightarrow> hook \<Rightarrow> hook" where
  "play [] h = h"
| "play (e # es) h = play es (step e h)"

section \<open>Notions used in the proofs\<close>

text \<open>
  \<open>sets_group n r\<close>: every match of \<open>r\<close> passes through a group numbered \<open>n\<close>.
  \<open>group_bodies n r\<close>: the patterns inside the groups numbered \<open>n\<close>.
  \<open>body_words ic inp b\<close>: the texts a pattern can match.
\<close>

fun sets_group :: "nat \<Rightarrow> regex \<Rightarrow> bool" where
  "sets_group n (Group k r) = (k = n \<or> sets_group n r)"
| "sets_group n (Seq r1 r2) = (sets_group n r1 \<or> sets_group n r2)"
| "sets_group n (Alt r1 r2) = (sets_group n r1 \<and> sets_group n r2)"
| "sets_group n (Optional r) = False"
| "sets_group n (Chars p) = False"
| "sets_group n (Class cs) = False"
| "sets_group n (Repeat cs lo hi g) = False"
| "sets_group n Bol = False"
| "sets_group n Eol = False"

fun group_bodies :: "nat \<Rightarrow> regex \<Rightarrow> regex list" where
  "group_bodies n (Group k r) = (if k = n then [r] else []) @ group_bodies n r"
| "group_bodies n (Seq r1 r2) = group_bodies n r1 @ group_bodies n r2"
| "group_bodies n (Alt r1 r2) = group_bodies n r1 @ group_bodies n r2"
| "group_bodies n (Optional r) = group_bodies n r"
| "group_bodies n (Chars p) = []"
| "group_bodies n (Class cs) = []"
| "group_bodies n (Repeat cs lo hi g) = []"
| "group_bodies n Bol = []"
| "group_bodies n Eol = []"

definition body_words :: "bool \<Rightarrow> string \<Rightarrow> regex \<Rightarrow> string set" where
  "body_words ic inp b =
     {w. \<exists>c1 s1 c2 s2. (c2, s2) \<in> set (ms ic inp b (c1, s1)) \<and> w = take (length s1 - length s2) s1}"

text \<open>
  The words of the specification about phone-shaped queries: a string of 7 to 15
  characters drawn from the digits, \<open>+\<close>, space, \<open>-\<close>, \<open>(\<close> and \<open>)\<close>; the same with
  no digit; and the normal form of a number, with the separators space, \<open>-\<close>, \<open>(\<close>, \<open>)\<close>
  removed and a leading \<open>+254\<close> replaced by \<open>0\<close>.
\<close>

definition phoneShaped :: "string \<Rightarrow> bool" where
  "phoneShaped s = (7 \<le> length s \<and> length s \<le> 15 \<and> list_all (\<lambda>c. c \<in> set ''0123456789+ -()'') s)"

definition normalized :: "string \<Rightarrow> string" where
  "normalized s =
     (let p = filter (\<lambda>c. c \<notin> set '' -()'') s
      in if prefix ''+254'' p then ''0'' @ drop 4 p else p)"

definition undigitShaped :: "string \<Rightarrow> bool" where
  "undigitShaped s = (7 \<le> length s \<and> length s \<le> 15 \<and> list_all (\<lambda>c. c \<in> set ''+ -()'') s)"

text \<open>
  The words of the specification about amounts. \<open>isDecimal\<close>: one or more digits,
  optionally followed by a decimal point and more digits. \<open>rawAmount\<close>: what the
  amount group of a template can match, before the commas are removed.
\<close>

definition isDigits :: "string \<Rightarrow> bool" where
  "isDigits d = (d \<noteq> [] \<and> list_all isDigit d)"

definition isDecimal :: "string \<Rightarrow> bool" where
  "isDecimal a =
     (case dropWhile isDigit a of
        [] \<Rightarrow> a \<noteq> []
      | x # d2 \<Rightarrow> takeWhile isDigit a \<noteq> [] \<and> x = CHR ''.'' \<and> isDigits d2)"

definition rawAmount :: "string \<Rightarrow> bool" where
  "rawAmount w =
     (\<exists>d1. isDigits d1 \<and>
        (w = d1 \<or> (\<exists>sep d2. isDigits d2 \<and> (sep = CHR '','' \<or> sep = CHR ''.'') \<and> w = d1 @ sep # d2)))"

text \<open>
  The contact of the specification's examples, and what it is for a contact's name to
  hold a word that starts with the query (the names in lower case, split at white space).
\<close>

definition David :: VoiceContact where
  "David = \<lparr> name = ''David'', type = Some Mobile, phone = ''0712345678'', accountNumber = None \<rparr>"

definition nameHasWord :: "string \<Rightarrow> VoiceContact \<Rightarrow> bool" where
  "nameHasWord q c = list_ex (\<lambda>nw. startsWith nw q) (split_ws (toLowerCase (name c)))"

text \<open>
  The three ways a query can match a contact, case ignored and the query trimmed: the
  name is the query, the name begins with the query, and every word of the query begins
  a word of the name.
\<close>

definition sameName :: "string \<Rightarrow> VoiceContact \<Rightarrow> bool" where
  "sameName q c \<longleftrightarrow> toLowerCase (name c) = toLowerCase (trim q)"

definition nameBegins :: "string \<Rightarrow> VoiceContact \<Rightarrow> bool" where
  "nameBegins q c \<longleftrightarrow> prefix (toLowerCase (trim q)) (toLowerCase (name c))"

definition wordsBegin :: "string \<Rightarrow> VoiceContact \<Rightarrow> bool" where
  "wordsBegin q c \<longleftrightarrow>
     (\<forall>w \<in> set (split_ws (toLowerCase (trim q))).
        \<exists>nw \<in> set (split_ws (toLowerCase (name c))). prefix w nw)"

text \<open>Further contacts for the examples.\<close>

definition Davidson :: VoiceContact where
  "Davidson = \<lparr> name = ''Davidson'', type = Some Mobile, phone = ''0711111111'', accountNumber = None \<rparr>"

definition Dave :: VoiceContact where
  "Dave = \<lparr> name = ''Dave'', type = Some Mobile, phone = ''0722222222'', accountNumber = None \<rparr>"

definition MamaMboga :: VoiceContact where
  "MamaMboga = \<lparr> name = ''Mama Mboga'', type = None, phone = ''0733333333'', accountNumber = None \<rparr>"

text \<open>The five variants that can be executed.\<close>

fun isConcrete :: "ParsedIntent \<Rightarrow> bool" where
  "isConcrete (NAMED_PAYMENT a n) = False"
| "isConcrete (SEND_MONEY a p) = True"
| "isConcrete (POCHI a p) = True"
| "isConcrete (PAYBILL a b acc) = True"
| "isConcrete (TILL a n) = True"
| "isConcrete (WITHDRAW a ag st) = True"

text \<open>
  The effects that execute something: a contact handed to the directory and an intent
  handed to the submission callback.
\<close>

fun isExecution :: "effect \<Rightarrow> bool" where
  "isExecution (SaveContact c) = True"
| "isExecution (Submit i) = True"
| "isExecution (Speak s) = False"
| "isExecution CancelSpeech = False"
| "isExecution Dismiss = False"

definition executions :: "session \<Rightarrow> effect list" where
  "executions w = filter isExecution (effects w)"

text \<open>
  What holds of the hook as long as every call of \<^verbatim>\<open>start\<close> runs from its beginning to
  its return with no tap and no other call in between: the two copies of the pending
  intent agree, a pending intent is concrete, there is one in the states \<open>confirming\<close>
  and \<open>awaiting_confirmation\<close>, and every intent submitted is concrete. Such a call, a
  tap and an edit of the directory each keep it. A call that resumes after a tap does
  not.
\<close>

definition sound :: "session \<Rightarrow> bool" where
  "sound w \<longleftrightarrow>
     pendingIntentRef w = pendingIntent w
     \<and> (\<forall>i. pendingIntent w = Some i \<longrightarrow> isConcrete i)
     \<and> (pendingIntent w = None \<longrightarrow> state w \<noteq> confirming \<and> state w \<noteq> awaiting_confirmation)
     \<and> (\<forall>i. Submit i \<in> set (effects w) \<longrightarrow> isConcrete i)"

text \<open>Two paybill contacts for the examples, with and without an account number.\<close>

definition Kplc :: VoiceContact where
  "Kplc = \<lparr> name = ''Kplc'', type = Some Paybill, phone = ''888880'', accountNumber = Some ''1234'' \<rparr>"

definition KplcBare :: VoiceContact where
  "KplcBare = \<lparr> name = ''Kplc'', type = Some Paybill, phone = ''888880'', accountNumber = None \<rparr>"

text \<open>
  The words of the confirmation: the trimmed answer begins, case ignored, with one of
  the listed strings. Nothing asks for the string to end at a word boundary.
\<close>

definition yesWords :: "string list" where
  "yesWords = [''yes'', ''yeah'', ''yep'', ''yup'', ''confirm'', ''send'', ''do it'', ''go'',
               ''ok'', ''okay'']"

definition beginsIgnoringCase :: "string \<Rightarrow> string \<Rightarrow> bool" where
  "beginsIgnoringCase s p =
     (length p \<le> length s \<and> map toUpperChar (take (length p) s) = map toUpperChar p)"

definition beginsWithYesWord :: "string \<Rightarrow> bool" where
  "beginsWithYesWord s = list_ex (beginsIgnoringCase s) yesWords"

text \<open>
  The intent a waiting call holds, and the part of the invariant that survives every
  order of events: no NAMED_PAYMENT is pending, held or submitted.
\<close>

fun held :: "await \<Rightarrow> ParsedIntent option" where
  "held (AwaitReadback intent raw) = Some intent"
| "held (AwaitAnswer intent raw) = Some intent"
| "held AwaitCommand = None"
| "held Returned = None"
| "held (Threw e) = None"

definition safe :: "hook \<Rightarrow> bool" where
  "safe h \<longleftrightarrow>
     (\<forall>i. pendingIntent (snd h) = Some i \<longrightarrow> isConcrete i)
     \<and> (\<forall>i. pendingIntentRef (snd h) = Some i \<longrightarrow> isConcrete i)
     \<and> (\<forall>i. Submit i \<in> set (effects (snd h)) \<longrightarrow> isConcrete i)
     \<and> (\<forall>k \<in> set (fst h). \<forall>i. held k = Some i \<longrightarrow> isConcrete i)"

definition safe_session :: "session \<Rightarrow> bool" where
  "safe_session w \<longleftrightarrow>
     (\<forall>i. pendingIntent w = Some i \<longrightarrow> isConcrete i)
     \<and> (\<forall>i. pendingIntentRef w = Some i \<longrightarrow> isConcrete i)
     \<and> (\<forall>i. Submit i \<in> set (effects w) \<longrightarrow> isConcrete i)"

text \<open>
  The events of the run that shows what a tap on cancel leaves undone: a command by
  name, the readback, then the call waits for the answer.
\<close>

definition asked :: "event list" where
  "asked = [CallStart True, Settle 0 (Captured (Heard ''send 500 to dav'')), Settle 0 Spoken]"

text \<open>
  The events of the run that shows what a tap on cancel does to a call that waits for
  its readback: a command that names a paybill contact is captured.
\<close>

definition named :: "event list" where
  "named = [CallStart True, Settle 0 (Captured (Heard ''pay kplc 500''))]"

section \<open>Properties of the matcher\<close>

lemma ms_shape:
  "(c', s') \<in> set (ms ic inp r (c, s)) \<Longrightarrow> length c' = length c \<and> suffix s' s"
proof (induction r arbitrary: c s c' s')
  case (Chars p)
  then show ?case by (auto simp: suffix_drop split: if_splits)
next
  case (Class cs)
  then show ?case by (auto simp: suffix_def split: list.splits if_splits)
next
  case (Repeat cs lo hi g)
  then show ?case by (auto simp: suffix_drop)
next
  case (Optional r)
  then show ?case by auto
next
  case (Seq r1 r2)
  from Seq.prems obtain c1 s1 where
    a: "(c1, s1) \<in> set (ms ic inp r1 (c, s))" and b: "(c', s') \<in> set (ms ic inp r2 (c1, s1))"
    by auto
  from Seq.IH(1) [OF a] Seq.IH(2) [OF b] show ?case
    by (auto intro: suffix_order.trans)
next
  case (Alt r1 r2)
  then show ?case by auto
next
  case (Group n r)
  from Group.prems obtain c1 where
    a: "(c1, s') \<in> set (ms ic inp r (c, s))" and b: "c' = c1[n := Some (take (length s - length s') s)]"
    by auto
  from Group.IH [OF a] b show ?case by simp
next
  case Bol
  then show ?case by (auto split: if_splits)
next
  case Eol
  then show ?case by (auto split: if_splits)
qed

lemma ms_Seq_iff:
  "(c', s') \<in> set (ms ic inp (Seq r1 r2) st) \<longleftrightarrow>
     (\<exists>c1 s1. (c1, s1) \<in> set (ms ic inp r1 st) \<and> (c', s') \<in> set (ms ic inp r2 (c1, s1)))"
  by auto

lemma ms_keeps:
  "(c', s') \<in> set (ms ic inp r (c, s)) \<Longrightarrow> n < length c \<Longrightarrow> c ! n \<noteq> None \<Longrightarrow> c' ! n \<noteq> None"
proof (induction r arbitrary: c s c' s')
  case (Seq r1 r2)
  from Seq.prems(1) obtain c1 s1 where
    a: "(c1, s1) \<in> set (ms ic inp r1 (c, s))" and b: "(c', s') \<in> set (ms ic inp r2 (c1, s1))"
    by auto
  have "length c1 = length c" using ms_shape [OF a] by simp
  with Seq.IH(1) [OF a Seq.prems(2,3)] Seq.IH(2) [OF b] Seq.prems(2) show ?case by simp
next
  case (Group k r)
  from Group.prems(1) obtain c1 where
    a: "(c1, s') \<in> set (ms ic inp r (c, s))" and b: "c' = c1[k := Some (take (length s - length s') s)]"
    by auto
  have "length c1 = length c" using ms_shape [OF a] by simp
  with Group.IH [OF a Group.prems(2,3)] b Group.prems(2) show ?case
    by (cases "k = n") simp_all
qed (auto split: if_splits list.splits)

lemma ms_sets:
  "(c', s') \<in> set (ms ic inp r (c, s)) \<Longrightarrow> n < length c \<Longrightarrow> sets_group n r \<Longrightarrow> c' ! n \<noteq> None"
proof (induction r arbitrary: c s c' s')
  case (Seq r1 r2)
  from Seq.prems(1) obtain c1 s1 where
    a: "(c1, s1) \<in> set (ms ic inp r1 (c, s))" and b: "(c', s') \<in> set (ms ic inp r2 (c1, s1))"
    by auto
  have len: "length c1 = length c" using ms_shape [OF a] by simp
  show ?case
  proof (cases "sets_group n r1")
    case True
    from Seq.IH(1) [OF a Seq.prems(2) True] have "c1 ! n \<noteq> None" .
    with ms_keeps [OF b] len Seq.prems(2) show ?thesis by simp
  next
    case False
    with Seq.prems(3) have "sets_group n r2" by simp
    with Seq.IH(2) [OF b] len Seq.prems(2) show ?thesis by simp
  qed
next
  case (Group k r)
  from Group.prems(1) obtain c1 where
    a: "(c1, s') \<in> set (ms ic inp r (c, s))" and b: "c' = c1[k := Some (take (length s - length s') s)]"
    by auto
  have len: "length c1 = length c" using ms_shape [OF a] by simp
  show ?case
  proof (cases "k = n")
    case True
    with b len Group.prems(2) show ?thesis by simp
  next
    case False
    with Group.prems(3) have "sets_group n r" by simp
    from Group.IH [OF a Group.prems(2) this] b False show ?thesis by simp
  qed
qed (auto split: if_splits list.splits)

lemma ms_group_text:
  "(c', s') \<in> set (ms ic inp r (c, s)) \<Longrightarrow> n < length c \<Longrightarrow>
     c' ! n = c ! n \<or> (\<exists>b \<in> set (group_bodies n r). \<exists>w \<in> body_words ic inp b. c' ! n = Some w)"
proof (induction r arbitrary: c s c' s')
  case (Seq r1 r2)
  from Seq.prems(1) obtain c1 s1 where
    a: "(c1, s1) \<in> set (ms ic inp r1 (c, s))" and b: "(c', s') \<in> set (ms ic inp r2 (c1, s1))"
    by auto
  have len: "length c1 = length c" using ms_shape [OF a] by simp
  from Seq.IH(1) [OF a Seq.prems(2)] Seq.IH(2) [OF b] len Seq.prems(2) show ?case
    by auto
next
  case (Group k r)
  from Group.prems(1) obtain c1 where
    a: "(c1, s') \<in> set (ms ic inp r (c, s))" and b: "c' = c1[k := Some (take (length s - length s') s)]"
    by auto
  have len: "length c1 = length c" using ms_shape [OF a] by simp
  show ?case
  proof (cases "k = n")
    case True
    have "take (length s - length s') s \<in> body_words ic inp r"
      unfolding body_words_def using a by blast
    with True b len Group.prems(2) show ?thesis by auto
  next
    case False
    with Group.IH [OF a Group.prems(2)] b show ?thesis by auto
  qed
next
  case (Alt r1 r2)
  from Alt.prems(1) have "(c', s') \<in> set (ms ic inp r1 (c, s)) \<or> (c', s') \<in> set (ms ic inp r2 (c, s))"
    by auto
  with Alt.IH(1) [OF _ Alt.prems(2)] Alt.IH(2) [OF _ Alt.prems(2)] show ?case
    by fastforce
next
  case (Optional r)
  from Optional.prems(1) have "(c', s') \<in> set (ms ic inp r (c, s)) \<or> (c', s') = (c, s)"
    by auto
  with Optional.IH [OF _ Optional.prems(2)] show ?case
    by fastforce
qed (auto split: if_splits list.splits)

lemma matchAt_Bol_pos:
  assumes "0 < i" "i \<le> length inp"
  shows "matchAt ic (Seq Bol r) inp i = None"
proof -
  from assms have "length (drop i inp) \<noteq> length inp" by simp
  then show ?thesis by (simp add: matchAt_def del: length_drop)
qed

lemma re_exec_Bol: "re_exec ic (Seq Bol r) inp = matchAt ic (Seq Bol r) inp 0"
proof -
  let ?P = "\<lambda>i. matchAt ic (Seq Bol r) inp i \<noteq> None"
  have "\<not> ?P i" if "i \<in> set [Suc 0 ..< Suc (length inp)]" for i
  proof -
    from that have "0 < i" and "i \<le> length inp" by auto
    then show ?thesis by (simp only: matchAt_Bol_pos not_not)
  qed
  then have rest: "List.find ?P [Suc 0 ..< Suc (length inp)] = None"
    unfolding find_None_iff by blast
  have upt: "[0 ..< Suc (length inp)] = 0 # [Suc 0 ..< Suc (length inp)]"
    by (rule upt_conv_Cons) simp
  show ?thesis
  proof (cases "?P 0")
    case True
    then show ?thesis unfolding re_exec_def upt by simp
  next
    case False
    then show ?thesis unfolding re_exec_def upt using rest by simp
  qed
qed

lemma ms_Seq_Nil:
  "ms ic inp (Seq a b) st = [] \<longleftrightarrow> (\<forall>x \<in> set (ms ic inp a st). ms ic inp b x = [])"
  by auto

lemma matchAt_None_iff:
  "matchAt ic r inp i = None \<longleftrightarrow> ms ic inp r (replicate (Suc (ngroups r)) None, drop i inp) = []"
  by (simp add: matchAt_def split: list.splits prod.splits)

lemma repeatCounts_set:
  "set (repeatCounts lo hi g avail) =
     {j. lo \<le> j \<and> j \<le> avail \<and> (case hi of None \<Rightarrow> True | Some h \<Rightarrow> j \<le> h)}"
  by (auto simp: repeatCounts_def Let_def split: option.splits)

lemma ms_Repeat_set:
  "set (ms ic inp (Repeat cs lo hi g) (c, s)) =
     {(c, drop j s) | j. lo \<le> j \<and> j \<le> length (takeWhile (inClass ic cs) s)
                        \<and> (case hi of None \<Rightarrow> True | Some h \<Rightarrow> j \<le> h)}"
  by (auto simp: repeatCounts_set)

lemma takeWhile_all: "length (takeWhile P s) = length s \<longleftrightarrow> (\<forall>x \<in> set s. P x)"
proof
  assume "length (takeWhile P s) = length s"
  then have "takeWhile P s = s"
    by (metis takeWhile_eq_take take_all order_refl)
  then show "\<forall>x \<in> set s. P x" by (metis set_takeWhileD)
next
  assume "\<forall>x \<in> set s. P x"
  then show "length (takeWhile P s) = length s" by (simp add: takeWhile_eq_all_conv[THEN iffD2])
qed

lemma isPhoneNumber_iff:
  "isPhoneNumber s \<longleftrightarrow>
     7 \<le> length s \<and> length s \<le> 15 \<and> (\<forall>x \<in> set s. inClass False phoneClass x)"
proof -
  let ?P = "inClass False phoneClass"
  let ?k = "length (takeWhile ?P s)"
  have k: "?k \<le> length s" by (rule length_takeWhile_le)
  have "isPhoneNumber s \<longleftrightarrow>
          ms False s (Seq (Repeat phoneClass 7 (Some 15) True) Eol) ([None], s) \<noteq> []"
    by (simp add: isPhoneNumber_def re_test_def phoneRe_def re_exec_Bol matchAt_None_iff phoneClass_def)
  also have "\<dots> \<longleftrightarrow> (\<exists>st \<in> set (ms False s (Repeat phoneClass 7 (Some 15) True) ([None], s)).
                          ms False s Eol st \<noteq> [])"
    by (simp only: ms_Seq_Nil) blast
  also have "\<dots> \<longleftrightarrow> (\<exists>j. 7 \<le> j \<and> j \<le> ?k \<and> j \<le> 15 \<and> drop j s = [])"
    unfolding ms_Repeat_set by auto
  also have "\<dots> \<longleftrightarrow> 7 \<le> length s \<and> length s \<le> 15 \<and> ?k = length s"
    using k by auto
  finally show ?thesis by (simp add: takeWhile_all)
qed

section \<open>Properties of the parser\<close>

lemma bindE_Inr:
  "bindE x f = Inr v \<Longrightarrow> \<exists>y. x = Inr y \<and> f y = Inr v"
  by (cases x) (simp_all add: bindE_def)

lemma parseIntent_cases:
  assumes "parseIntent t = Inr (Some i)"
  obtains
    (send) m a p where "re_exec True sendRe (trim t) = Some m"
      "grp m 1 = Inr a" "grp m 2 = Inr p" "i = SEND_MONEY (normalizeAmount a) (trim p)"
  | (pochi) m a p where "re_exec True sendRe (trim t) = None"
      "re_exec True pochiRe (trim t) = Some m"
      "grp m 1 = Inr a" "grp m 2 = Inr p" "i = POCHI (normalizeAmount a) (trim p)"
  | (paybill) m a b acc where "re_exec True sendRe (trim t) = None"
      "re_exec True pochiRe (trim t) = None" "re_exec True paybillRe (trim t) = Some m"
      "grp m 3 = Inr a" "grp m 1 = Inr b" "grp m 2 = Inr acc"
      "i = PAYBILL (normalizeAmount a) b acc"
  | (till) m a n where "re_exec True sendRe (trim t) = None"
      "re_exec True pochiRe (trim t) = None" "re_exec True paybillRe (trim t) = None"
      "re_exec True tillRe (trim t) = Some m"
      "grp m 2 = Inr a" "grp m 1 = Inr n" "i = TILL (normalizeAmount a) n"
  | (withdraw) m a ag st where "re_exec True sendRe (trim t) = None"
      "re_exec True pochiRe (trim t) = None" "re_exec True paybillRe (trim t) = None"
      "re_exec True tillRe (trim t) = None" "re_exec True withdrawRe (trim t) = Some m"
      "grp m 1 = Inr a" "grp m 2 = Inr ag" "grp m 3 = Inr st"
      "i = WITHDRAW (normalizeAmount a) ag st"
  | (named) m a n where "re_exec True sendRe (trim t) = None"
      "re_exec True pochiRe (trim t) = None" "re_exec True paybillRe (trim t) = None"
      "re_exec True tillRe (trim t) = None" "re_exec True withdrawRe (trim t) = None"
      "re_exec True namedRe (trim t) = Some m"
      "grp m 1 = Inr n" "grp m 2 = Inr a" "i = NAMED_PAYMENT (normalizeAmount a) (trim n)"
proof (cases "re_exec True sendRe (trim t)")
  case (Some m)
  with assms have "bindE (grp m 1) (\<lambda>a. bindE (grp m 2) (\<lambda>p.
            Inr (Some (SEND_MONEY (normalizeAmount a) (trim p))))) = Inr (Some i)"
    by (simp add: parseIntent_def Let_def)
  then show ?thesis using Some send by (auto dest!: bindE_Inr)
next
  case s: None
  show ?thesis
  proof (cases "re_exec True pochiRe (trim t)")
    case (Some m)
    with assms s have "bindE (grp m 1) (\<lambda>a. bindE (grp m 2) (\<lambda>p.
            Inr (Some (POCHI (normalizeAmount a) (trim p))))) = Inr (Some i)"
      by (simp add: parseIntent_def Let_def)
    then show ?thesis using Some s pochi by (auto dest!: bindE_Inr)
  next
    case p: None
    show ?thesis
    proof (cases "re_exec True paybillRe (trim t)")
      case (Some m)
      with assms s p have "bindE (grp m 3) (\<lambda>a. bindE (grp m 1) (\<lambda>b.
            bindE (grp m 2) (\<lambda>acc. Inr (Some (PAYBILL (normalizeAmount a) b acc))))) = Inr (Some i)"
        by (simp add: parseIntent_def Let_def)
      then show ?thesis using Some s p paybill by (auto dest!: bindE_Inr)
    next
      case b: None
      show ?thesis
      proof (cases "re_exec True tillRe (trim t)")
        case (Some m)
        with assms s p b have "bindE (grp m 2) (\<lambda>a. bindE (grp m 1) (\<lambda>n.
            Inr (Some (TILL (normalizeAmount a) n)))) = Inr (Some i)"
          by (simp add: parseIntent_def Let_def)
        then show ?thesis using Some s p b till by (auto dest!: bindE_Inr)
      next
        case l: None
        show ?thesis
        proof (cases "re_exec True withdrawRe (trim t)")
          case (Some m)
          with assms s p b l have "bindE (grp m 1) (\<lambda>a. bindE (grp m 2) (\<lambda>ag.
            bindE (grp m 3) (\<lambda>st. Inr (Some (WITHDRAW (normalizeAmount a) ag st))))) = Inr (Some i)"
            by (simp add: parseIntent_def Let_def)
          then show ?thesis using Some s p b l withdraw by (auto dest!: bindE_Inr)
        next
          case d: None
          show ?thesis
          proof (cases "re_exec True namedRe (trim t)")
            case (Some m)
            with assms s p b l d have "bindE (grp m 1) (\<lambda>n. bindE (grp m 2) (\<lambda>a.
              Inr (Some (NAMED_PAYMENT (normalizeAmount a) (trim n))))) = Inr (Some i)"
              by (simp add: parseIntent_def Let_def)
            then show ?thesis using Some s p b l d named by (auto dest!: bindE_Inr)
          next
            case None
            with assms s p b l d show ?thesis
              by (simp add: parseIntent_def Let_def)
          qed
        qed
      qed
    qed
  qed
qed

text \<open>
  C3. The transcript "pay till 522533 500" parses as the TILL intent with amount 500 and
  till 522533; and no transcript that the TILL template matches is ever parsed as a
  NAMED_PAYMENT, because the templates are tried in order and the named one comes last.
\<close>

theorem till_precedence:
  "parseIntent ''pay till 522533 500'' = Inr (Some (TILL ''500'' ''522533''))
   \<and> (\<forall>t. re_exec True tillRe (trim t) \<noteq> None \<longrightarrow>
          (\<forall>a n. parseIntent t \<noteq> Inr (Some (NAMED_PAYMENT a n))))"
proof (intro conjI allI impI)
  show "parseIntent ''pay till 522533 500'' = Inr (Some (TILL ''500'' ''522533''))"
    by code_simp
next
  fix t a n
  assume h: "re_exec True tillRe (trim t) \<noteq> None"
  show "parseIntent t \<noteq> Inr (Some (NAMED_PAYMENT a n))"
  proof
    assume "parseIntent t = Inr (Some (NAMED_PAYMENT a n))"
    then show False using h by (cases rule: parseIntent_cases) simp_all
  qed
qed

text \<open>
  The transcript of the claim is matched by the TILL template and, taken alone, by the
  named-payment template as well (with the name "till 522533"); it is not parsed as
  that NAMED_PAYMENT.
\<close>

theorem till_precedence_witness:
  "re_exec True tillRe (trim ''pay till 522533 500'') \<noteq> None
   \<and> re_exec True namedRe (trim ''pay till 522533 500'')
       = Some [Some ''pay till 522533 500'', Some ''till 522533'', Some ''500'']
   \<and> parseIntent ''pay till 522533 500'' \<noteq> Inr (Some (NAMED_PAYMENT ''500'' ''till 522533''))"
proof -
  have h: "re_exec True tillRe (trim ''pay till 522533 500'') \<noteq> None"
    by code_simp
  have g: "re_exec True namedRe (trim ''pay till 522533 500'')
       = Some [Some ''pay till 522533 500'', Some ''till 522533'', Some ''500'']"
    by code_simp
  from till_precedence h
  have "parseIntent ''pay till 522533 500'' \<noteq> Inr (Some (NAMED_PAYMENT ''500'' ''till 522533''))"
    by blast
  with h g show ?thesis by simp
qed

section \<open>Phone-shaped queries\<close>

lemma phone_chars_all:
  "list_all (\<lambda>c. inClass False phoneClass c
      \<and> (inClass False [CSpace, CChar CHR ''-'', CChar CHR ''('', CChar CHR '')''] c
           \<longleftrightarrow> c \<in> set '' -()''))
     ''0123456789+ -()''"
  by code_simp

lemma phone_chars:
  assumes "c \<in> set ''0123456789+ -()''"
  shows "inClass False phoneClass c"
    and "inClass False [CSpace, CChar CHR ''-'', CChar CHR ''('', CChar CHR '')''] c \<longleftrightarrow> c \<in> set '' -()''"
  using assms phone_chars_all unfolding list_all_iff by blast+

lemma phoneShaped_isPhoneNumber: "phoneShaped s \<Longrightarrow> isPhoneNumber s"
  by (simp add: phoneShaped_def isPhoneNumber_iff list_all_iff phone_chars(1))

lemma phoneShaped_normalizePhone:
  assumes "phoneShaped s"
  shows "normalizePhone s = normalized s"
proof -
  have "re_strip [CSpace, CChar CHR ''-'', CChar CHR ''('', CChar CHR '')''] s
          = filter (\<lambda>c. c \<notin> set '' -()'') s"
    unfolding re_strip_def
    using assms by (intro filter_cong) (auto simp: phoneShaped_def list_all_iff phone_chars(2))
  then show ?thesis
    by (simp add: normalizePhone_def normalized_def startsWith_def)
qed

text \<open>
  C4. Whatever the directory holds, a query whose trimmed form is phone-shaped resolves
  to its normal form (separators removed, a leading +254 replaced by 0); the result does
  not depend on the directory. In particular "0712345678" resolves to itself.
\<close>

theorem phone_query_bypasses_directory:
  "(\<forall>dir q. phoneShaped (trim q) \<longrightarrow> resolvePhoneOrName dir q = Some (normalized (trim q)))
   \<and> (\<forall>dir. resolvePhoneOrName dir ''0712345678'' = Some ''0712345678'')"
proof (intro conjI allI impI)
  fix dir q
  assume "phoneShaped (trim q)"
  then show "resolvePhoneOrName dir q = Some (normalized (trim q))"
    by (simp add: resolvePhoneOrName_def phoneShaped_isPhoneNumber phoneShaped_normalizePhone)
next
  fix dir
  have "isPhoneNumber (trim ''0712345678'')" by code_simp
  moreover have "normalizePhone (trim ''0712345678'') = ''0712345678''" by code_simp
  ultimately show "resolvePhoneOrName dir ''0712345678'' = Some ''0712345678''"
    by (simp only: resolvePhoneOrName_def Let_def if_True)
qed

theorem phone_query_bypasses_directory_witness:
  "phoneShaped (trim '' +254 712-345678 '')
   \<and> (\<forall>dir. resolvePhoneOrName dir '' +254 712-345678 '' = Some ''0712345678'')"
proof -
  have h: "phoneShaped (trim '' +254 712-345678 '')" by code_simp
  have n: "normalized (trim '' +254 712-345678 '') = ''0712345678''" by code_simp
  from phone_query_bypasses_directory h
  have "\<forall>dir. resolvePhoneOrName dir '' +254 712-345678 '' = Some (normalized (trim '' +254 712-345678 ''))"
    by blast
  with h n show ?thesis by simp
qed

lemma undigit_chars_all:
  "list_all (\<lambda>c. c \<in> set ''0123456789+ -()'' \<and> \<not> isDigit c \<and> c \<noteq> CHR ''2'') ''+ -()''"
  by code_simp

lemma undigit_chars:
  assumes "c \<in> set ''+ -()''"
  shows "c \<in> set ''0123456789+ -()''" and "\<not> isDigit c" and "c \<noteq> CHR ''2''"
  using assms undigit_chars_all unfolding list_all_iff by blast+

lemma undigit_phoneShaped: "undigitShaped s \<Longrightarrow> phoneShaped s"
  unfolding undigitShaped_def phoneShaped_def list_all_iff
  using undigit_chars(1) by blast

lemma undigit_normalized:
  assumes "undigitShaped s"
  shows "normalized s = filter (\<lambda>c. c \<notin> set '' -()'') s"
proof -
  let ?p = "filter (\<lambda>c. c \<notin> set '' -()'') s"
  have "\<not> prefix ''+254'' ?p"
  proof
    assume "prefix ''+254'' ?p"
    then have "set ''+254'' \<subseteq> set ?p" by (rule set_mono_prefix)
    moreover have "CHR ''2'' \<in> set ''+254''" by simp
    ultimately have "CHR ''2'' \<in> set ?p" by blast
    then have "CHR ''2'' \<in> set s" by (simp only: set_filter mem_Collect_eq)
    with assms have "CHR ''2'' \<in> set ''+ -()''"
      unfolding undigitShaped_def list_all_iff by blast
    then show False using undigit_chars(3) by blast
  qed
  then show ?thesis by (simp add: normalized_def)
qed

text \<open>
  C10. The phone-shape test asks for no digit: "-------" resolves to the empty string,
  not to none, and every query whose trimmed form has 7 to 15 characters, all among
  \<open>+\<close>, space, \<open>-\<close>, \<open>(\<close> and \<open>)\<close>, holds no digit and resolves to what is left of it once the
  separators are removed, whatever the directory holds.
\<close>

theorem digitless_query_resolves:
  "(\<forall>dir. resolvePhoneOrName dir ''-------'' = Some [])
   \<and> (\<forall>dir q. undigitShaped (trim q) \<longrightarrow>
         \<not> list_ex isDigit (trim q)
         \<and> resolvePhoneOrName dir q = Some (filter (\<lambda>c. c \<notin> set '' -()'') (trim q)))"
proof (intro conjI allI impI)
  fix dir
  have "isPhoneNumber (trim ''-------'')" by code_simp
  moreover have "normalizePhone (trim ''-------'') = []" by code_simp
  ultimately show "resolvePhoneOrName dir ''-------'' = Some []"
    by (simp only: resolvePhoneOrName_def Let_def if_True)
next
  fix dir q
  assume u: "undigitShaped (trim q)"
  then show "\<not> list_ex isDigit (trim q)"
    unfolding undigitShaped_def list_all_iff list_ex_iff
    using undigit_chars(2) by blast
next
  fix dir q
  assume u: "undigitShaped (trim q)"
  then have "phoneShaped (trim q)" by (rule undigit_phoneShaped)
  then have "resolvePhoneOrName dir q = Some (normalized (trim q))"
    by (simp add: resolvePhoneOrName_def phoneShaped_isPhoneNumber phoneShaped_normalizePhone)
  with u show "resolvePhoneOrName dir q = Some (filter (\<lambda>c. c \<notin> set '' -()'') (trim q))"
    by (simp add: undigit_normalized)
qed

theorem digitless_query_resolves_witness:
  "undigitShaped (trim '' (+) (+)  '')
   \<and> \<not> list_ex isDigit (trim '' (+) (+)  '')
   \<and> (\<forall>dir. resolvePhoneOrName dir '' (+) (+)  '' = Some ''++'')"
proof -
  have h: "undigitShaped (trim '' (+) (+)  '')" by code_simp
  have n: "filter (\<lambda>c. c \<notin> set '' -()'') (trim '' (+) (+)  '') = ''++''" by code_simp
  from digitless_query_resolves h
  have "\<not> list_ex isDigit (trim '' (+) (+)  '')
        \<and> (\<forall>dir. resolvePhoneOrName dir '' (+) (+)  ''
               = Some (filter (\<lambda>c. c \<notin> set '' -()'') (trim '' (+) (+)  '')))"
    by blast
  with h n show ?thesis by simp
qed

section \<open>Amounts\<close>

lemma isDigit_iff: "isDigit c \<longleftrightarrow> 48 \<le> (of_char c :: nat) \<and> (of_char c :: nat) \<le> 57"
  by (simp add: isDigit_def inRange_def)

lemma char_eq_code: "c = d \<longleftrightarrow> (of_char c :: nat) = of_char d"
  by simp

lemma of_char_toLowerChar:
  "(of_char (toLowerChar c) :: nat) =
     (if (65 \<le> (of_char c :: nat) \<and> (of_char c :: nat) \<le> 90)
         \<or> (192 \<le> (of_char c :: nat) \<and> (of_char c :: nat) \<le> 222 \<and> (of_char c :: nat) \<noteq> 215)
      then of_char c + 32 else of_char c)"
  by (auto simp: toLowerChar_def Let_def)

lemma of_char_toUpperChar:
  "(of_char (toUpperChar c) :: nat) =
     (if (97 \<le> (of_char c :: nat) \<and> (of_char c :: nat) \<le> 122)
         \<or> (224 \<le> (of_char c :: nat) \<and> (of_char c :: nat) \<le> 254 \<and> (of_char c :: nat) \<noteq> 247)
      then of_char c - 32 else of_char c)"
  by (auto simp: toUpperChar_def Let_def)

lemma digit_class: "inClass ic [CDigit] c \<longleftrightarrow> isDigit c"
  by (auto simp: inClass_def isDigit_iff of_char_toLowerChar of_char_toUpperChar split: if_splits)

lemma separator_class:
  "inClass ic [CChar CHR '','', CChar CHR ''.''] c \<longleftrightarrow> c = CHR '','' \<or> c = CHR ''.''"
proof -
  have "toLowerChar c = CHR '','' \<Longrightarrow> c = CHR '',''" "toLowerChar c = CHR ''.'' \<Longrightarrow> c = CHR ''.''"
       "toUpperChar c = CHR '','' \<Longrightarrow> c = CHR '',''" "toUpperChar c = CHR ''.'' \<Longrightarrow> c = CHR ''.''"
    unfolding char_eq_code [of _ "CHR '',''"] char_eq_code [of _ "CHR ''.''"]
      of_char_toLowerChar of_char_toUpperChar
    by (auto split: if_splits)
  then show ?thesis by (auto simp: inClass_def)
qed

lemma digit_not_separator: "isDigit c \<Longrightarrow> c \<noteq> CHR '','' \<and> c \<noteq> CHR ''.''"
  unfolding isDigit_iff by auto

lemma take_takeWhile:
  assumes "j \<le> length (takeWhile P s)"
  shows "list_all P (take j s)"
proof -
  have "take j s = take j (takeWhile P s @ dropWhile P s)" by simp
  also have "\<dots> = take j (takeWhile P s)" using assms by (simp del: takeWhile_dropWhile_id)
  finally have "set (take j s) \<subseteq> set (takeWhile P s)" by (simp add: set_take_subset)
  then show ?thesis unfolding list_all_iff by (auto dest: set_takeWhileD)
qed

lemma some_digits:
  assumes "(c2, s2) \<in> set (ms ic inp (some [CDigit]) (c1, s1))"
  shows "\<exists>d. isDigits d \<and> s1 = d @ s2 \<and> c2 = c1"
proof -
  from assms obtain j where j: "1 \<le> j" "j \<le> length (takeWhile (inClass ic [CDigit]) s1)"
      and s2: "s2 = drop j s1" and c2: "c2 = c1"
    unfolding some_def ms_Repeat_set by auto
  have "list_all (inClass ic [CDigit]) (take j s1)" using j(2) by (rule take_takeWhile)
  then have d: "list_all isDigit (take j s1)" by (simp add: digit_class list_all_iff)
  have "j \<le> length s1" using j(2) length_takeWhile_le [of "inClass ic [CDigit]" s1] by simp
  with j(1) have "take j s1 \<noteq> []" by auto
  with d s2 c2 show ?thesis unfolding isDigits_def by (intro exI [of _ "take j s1"]) simp
qed

lemma amount_words:
  assumes "w \<in> body_words ic inp AMOUNT_BODY"
  shows "rawAmount w"
proof -
  from assms obtain c1 s1 c2 s2 where
    m: "(c2, s2) \<in> set (ms ic inp AMOUNT_BODY (c1, s1))" and w: "w = take (length s1 - length s2) s1"
    unfolding body_words_def by blast
  from m obtain ca sa where
    a: "(ca, sa) \<in> set (ms ic inp (some [CDigit]) (c1, s1))"
    and b: "(c2, s2) \<in> set (ms ic inp (Optional (Seq (Class [CChar CHR '','', CChar CHR ''.'']) (some [CDigit]))) (ca, sa))"
    unfolding AMOUNT_BODY_def ms_Seq_iff by blast
  from some_digits [OF a] obtain d1 where d1: "isDigits d1" "s1 = d1 @ sa" by blast
  from b have "(c2, s2) = (ca, sa)
     \<or> (c2, s2) \<in> set (ms ic inp (Seq (Class [CChar CHR '','', CChar CHR ''.'']) (some [CDigit])) (ca, sa))"
    by auto
  then show ?thesis
  proof
    assume "(c2, s2) = (ca, sa)"
    with d1 w have "w = d1" by simp
    with d1 show ?thesis unfolding rawAmount_def by blast
  next
    assume "(c2, s2) \<in> set (ms ic inp (Seq (Class [CChar CHR '','', CChar CHR ''.'']) (some [CDigit])) (ca, sa))"
    then obtain cb sb where
      p: "(cb, sb) \<in> set (ms ic inp (Class [CChar CHR '','', CChar CHR ''.'']) (ca, sa))"
      and q: "(c2, s2) \<in> set (ms ic inp (some [CDigit]) (cb, sb))"
      unfolding ms_Seq_iff by blast
    from p obtain sep where sep: "sa = sep # sb" "sep = CHR '','' \<or> sep = CHR ''.''"
      by (auto simp: separator_class split: list.splits if_splits)
    from some_digits [OF q] obtain d2 where d2: "isDigits d2" "sb = d2 @ s2" by blast
    from d1 sep d2 w have "w = d1 @ sep # d2" by simp
    with d1 d2 sep show ?thesis unfolding rawAmount_def by blast
  qed
qed

lemma isDigits_append: "isDigits a \<Longrightarrow> isDigits b \<Longrightarrow> isDigits (a @ b)"
  by (simp add: isDigits_def)

lemma isDigits_no_comma: "isDigits d \<Longrightarrow> normalizeAmount d = d"
  unfolding normalizeAmount_def isDigits_def list_all_iff
  by (simp add: filter_id_conv) (metis digit_not_separator)

lemma isDigits_isDecimal: "isDigits d \<Longrightarrow> isDecimal d"
proof -
  assume d: "isDigits d"
  then have "dropWhile isDigit d = []" by (simp add: isDigits_def list_all_iff)
  with d show ?thesis unfolding isDecimal_def isDigits_def
    by (simp only: list.case) simp
qed

lemma isDigits_clean: "isDigits d \<Longrightarrow> CHR '','' \<notin> set d"
  unfolding isDigits_def list_all_iff using digit_not_separator by blast

lemma point_isDecimal:
  assumes "isDigits d1" "isDigits d2"
  shows "isDecimal (d1 @ CHR ''.'' # d2)"
proof -
  have nd: "\<not> isDigit CHR ''.''" using digit_not_separator by blast
  from assms(1) have all: "\<forall>x \<in> set d1. isDigit x" by (simp add: isDigits_def list_all_iff)
  with nd have "dropWhile isDigit (d1 @ CHR ''.'' # d2) = CHR ''.'' # d2"
    by (simp add: dropWhile_append2)
  moreover from all nd have "takeWhile isDigit (d1 @ CHR ''.'' # d2) = d1"
    by (simp add: takeWhile_tail)
  ultimately show ?thesis using assms by (simp add: isDecimal_def isDigits_def)
qed

lemma rawAmount_normalizeAmount:
  assumes "rawAmount w"
  shows "CHR '','' \<notin> set (normalizeAmount w) \<and> isDecimal (normalizeAmount w)"
proof -
  have clean: "CHR '','' \<notin> set (normalizeAmount w)" by (simp add: normalizeAmount_def)
  from assms obtain d1 where d1: "isDigits d1"
    and w: "w = d1 \<or> (\<exists>sep d2. isDigits d2 \<and> (sep = CHR '','' \<or> sep = CHR ''.'') \<and> w = d1 @ sep # d2)"
    unfolding rawAmount_def by blast
  from w have "isDecimal (normalizeAmount w)"
  proof
    assume "w = d1"
    with d1 show ?thesis by (simp add: isDigits_no_comma isDigits_isDecimal)
  next
    assume "\<exists>sep d2. isDigits d2 \<and> (sep = CHR '','' \<or> sep = CHR ''.'') \<and> w = d1 @ sep # d2"
    then obtain sep d2 where d2: "isDigits d2" and sep: "sep = CHR '','' \<or> sep = CHR ''.''"
      and weq: "w = d1 @ sep # d2" by blast
    have split: "normalizeAmount w = normalizeAmount d1 @ normalizeAmount [sep] @ normalizeAmount d2"
      using weq by (simp add: normalizeAmount_def)
    from sep show ?thesis
    proof
      assume "sep = CHR '',''"
      with split d1 d2 have "normalizeAmount w = d1 @ d2"
        by (simp add: isDigits_no_comma) (simp add: normalizeAmount_def)
      with d1 d2 show ?thesis by (simp add: isDigits_append isDigits_isDecimal)
    next
      assume "sep = CHR ''.''"
      with split d1 d2 have "normalizeAmount w = d1 @ CHR ''.'' # d2"
        by (simp add: isDigits_no_comma) (simp add: normalizeAmount_def)
      with d1 d2 show ?thesis by (simp add: point_isDecimal)
    qed
  qed
  with clean show ?thesis by blast
qed

lemma re_exec_SomeD:
  assumes "re_exec ic r inp = Some m"
  shows "\<exists>i c rest. (c, rest) \<in> set (ms ic inp r (replicate (Suc (ngroups r)) None, drop i inp))
           \<and> m = c[0 := Some (take (length inp - i - length rest) (drop i inp))]"
proof -
  let ?c0 = "replicate (Suc (ngroups r)) (None :: string option)"
  from assms obtain i where i: "matchAt ic r inp i = Some m"
    unfolding re_exec_def by (auto split: option.splits)
  show ?thesis
  proof (cases "ms ic inp r (?c0, drop i inp)")
    case Nil
    with i show ?thesis unfolding matchAt_def by (simp only: list.case) simp
  next
    case (Cons x xs)
    obtain c rest where x: "x = (c, rest)" by (cases x)
    from i Cons x have "m = c[0 := Some (take (length inp - i - length rest) (drop i inp))]"
      unfolding matchAt_def by (simp only: list.case prod.case) simp
    moreover from Cons x have "(c, rest) \<in> set (ms ic inp r (?c0, drop i inp))"
      by (simp only: list.set) simp
    ultimately show ?thesis by blast
  qed
qed

lemma exec_group:
  assumes "re_exec ic r inp = Some m" and "0 < n" and "n \<le> ngroups r" and "sets_group n r"
  shows "\<exists>b \<in> set (group_bodies n r). \<exists>w \<in> body_words ic inp b. grp m n = Inr w"
proof -
  let ?c0 = "replicate (Suc (ngroups r)) (None :: string option)"
  from re_exec_SomeD [OF assms(1)] obtain i c rest where
    c: "(c, rest) \<in> set (ms ic inp r (?c0, drop i inp))"
    and m: "m = c[0 := Some (take (length inp - i - length rest) (drop i inp))]"
    by blast
  have n: "n < length ?c0" using assms(3) by simp
  have len: "length c = Suc (ngroups r)" using ms_shape [OF c] by simp
  have "c ! n \<noteq> None" using ms_sets [OF c n assms(4)] .
  moreover have "?c0 ! n = None"
  proof -
    have "n < Suc (ngroups r)" using assms(3) by simp
    then show ?thesis by (rule nth_replicate)
  qed
  ultimately obtain b w where b: "b \<in> set (group_bodies n r)" and w: "w \<in> body_words ic inp b"
    and cn: "c ! n = Some w"
    using ms_group_text [OF c n] by auto
  from m assms(2) len n cn have "grp m n = Inr w"
    by (simp add: grp_def at_def)
  with b w show ?thesis by blast
qed

lemma AMOUNT_BODY_groups: "ngroups AMOUNT_BODY = 0" "group_bodies n AMOUNT_BODY = []"
  by (simp_all add: AMOUNT_BODY_def some_def)

lemma ngroups_templates:
  "ngroups sendRe = 2" "ngroups pochiRe = 2" "ngroups paybillRe = 3"
  "ngroups tillRe = 2" "ngroups withdrawRe = 3" "ngroups namedRe = 2"
  by (simp_all add: sendRe_def pochiRe_def paybillRe_def tillRe_def withdrawRe_def namedRe_def
        AMOUNT_RE_def PHONE_OR_NAME_RE_def NUMBER_RE_def some_def AMOUNT_BODY_groups)

lemma amount_group:
  "sets_group 1 sendRe \<and> group_bodies 1 sendRe = [AMOUNT_BODY]"
  "sets_group 1 pochiRe \<and> group_bodies 1 pochiRe = [AMOUNT_BODY]"
  "sets_group 3 paybillRe \<and> group_bodies 3 paybillRe = [AMOUNT_BODY]"
  "sets_group 2 tillRe \<and> group_bodies 2 tillRe = [AMOUNT_BODY]"
  "sets_group 1 withdrawRe \<and> group_bodies 1 withdrawRe = [AMOUNT_BODY]"
  "sets_group 2 namedRe \<and> group_bodies 2 namedRe = [AMOUNT_BODY]"
  by (simp_all add: sendRe_def pochiRe_def paybillRe_def tillRe_def withdrawRe_def namedRe_def
        AMOUNT_RE_def PHONE_OR_NAME_RE_def NUMBER_RE_def some_def AMOUNT_BODY_groups)

lemma amount_of_match:
  assumes "re_exec True r t = Some m" and "grp m n = Inr a"
    and "0 < n" and "n \<le> ngroups r" and "sets_group n r \<and> group_bodies n r = [AMOUNT_BODY]"
  shows "CHR '','' \<notin> set (normalizeAmount a) \<and> isDecimal (normalizeAmount a)"
proof -
  from exec_group [OF assms(1) assms(3) assms(4)] assms(5)
  obtain w where "w \<in> body_words True t AMOUNT_BODY" and "grp m n = Inr w" by auto
  with assms(2) have "rawAmount a" using amount_words by simp
  then show ?thesis by (rule rawAmount_normalizeAmount)
qed

text \<open>
  C6. Whenever parseIntent returns an intent, its amount holds no comma and is one or
  more digits, optionally followed by a decimal point and more digits. An amount with a
  comma normalizes like the one without: "send 1,000 to 0712345678" and
  "send 1000 to 0712345678" both give the SEND_MONEY intent with amount 1000.
\<close>

theorem amount_normalized:
  "(\<forall>t i. parseIntent t = Inr (Some i) \<longrightarrow> CHR '','' \<notin> set (amount i) \<and> isDecimal (amount i))
   \<and> parseIntent ''send 1,000 to 0712345678'' = Inr (Some (SEND_MONEY ''1000'' ''0712345678''))
   \<and> parseIntent ''send 1000 to 0712345678'' = Inr (Some (SEND_MONEY ''1000'' ''0712345678''))"
proof (intro conjI allI impI)
  fix t i
  assume p: "parseIntent t = Inr (Some i)"
  then have "CHR '','' \<notin> set (amount i) \<and> isDecimal (amount i)"
  proof (cases rule: parseIntent_cases)
    case (send m a p)
    from amount_of_match [OF send(1) send(2) _ _ amount_group(1)] send(4)
    show ?thesis by (simp add: ngroups_templates)
  next
    case (pochi m a p)
    from amount_of_match [OF pochi(2) pochi(3) _ _ amount_group(2)] pochi(5)
    show ?thesis by (simp add: ngroups_templates)
  next
    case (paybill m a b acc)
    from amount_of_match [OF paybill(3) paybill(4) _ _ amount_group(3)] paybill(7)
    show ?thesis by (simp add: ngroups_templates)
  next
    case (till m a n)
    from amount_of_match [OF till(4) till(5) _ _ amount_group(4)] till(7)
    show ?thesis by (simp add: ngroups_templates)
  next
    case (withdraw m a ag st)
    from amount_of_match [OF withdraw(5) withdraw(6) _ _ amount_group(5)] withdraw(9)
    show ?thesis by (simp add: ngroups_templates)
  next
    case (named m a n)
    from amount_of_match [OF named(6) named(8) _ _ amount_group(6)] named(9)
    show ?thesis by (simp add: ngroups_templates)
  qed
  then show "CHR '','' \<notin> set (amount i)" and "isDecimal (amount i)" by simp_all
next
  show "parseIntent ''send 1,000 to 0712345678'' = Inr (Some (SEND_MONEY ''1000'' ''0712345678''))"
    by code_simp
next
  show "parseIntent ''send 1000 to 0712345678'' = Inr (Some (SEND_MONEY ''1000'' ''0712345678''))"
    by code_simp
qed

theorem amount_normalized_witness:
  "parseIntent ''pay bill 247247 account 1234 amount 1,500'' = Inr (Some (PAYBILL ''1500'' ''247247'' ''1234''))
   \<and> CHR '','' \<notin> set ''1500'' \<and> isDecimal ''1500''"
proof -
  have h: "parseIntent ''pay bill 247247 account 1234 amount 1,500'' = Inr (Some (PAYBILL ''1500'' ''247247'' ''1234''))"
    by code_simp
  from amount_normalized h
  have "CHR '','' \<notin> set (amount (PAYBILL ''1500'' ''247247'' ''1234''))
        \<and> isDecimal (amount (PAYBILL ''1500'' ''247247'' ''1234''))"
    by blast
  with h show ?thesis by simp
qed

lemma grp_defined:
  assumes "re_exec ic r inp = Some m" and "0 < n" and "n \<le> ngroups r" and "sets_group n r"
  shows "\<exists>w. grp m n = Inr w"
  using exec_group [OF assms] by blast

lemma all_groups_set:
  "sets_group 1 sendRe" "sets_group 2 sendRe"
  "sets_group 1 pochiRe" "sets_group 2 pochiRe"
  "sets_group 1 paybillRe" "sets_group 2 paybillRe" "sets_group 3 paybillRe"
  "sets_group 1 tillRe" "sets_group 2 tillRe"
  "sets_group 1 withdrawRe" "sets_group 2 withdrawRe" "sets_group 3 withdrawRe"
  "sets_group 1 namedRe" "sets_group 2 namedRe"
  by (simp_all add: sendRe_def pochiRe_def paybillRe_def tillRe_def withdrawRe_def namedRe_def
        AMOUNT_RE_def PHONE_OR_NAME_RE_def NUMBER_RE_def)

lemma sendRe_groups:
  assumes "re_exec True sendRe t = Some m"
  shows "\<exists>a b. grp m 1 = Inr a \<and> grp m 2 = Inr b"
proof -
  have "\<exists>w. grp m 1 = Inr w"
    by (rule grp_defined [OF assms _ _ all_groups_set(1)]) (simp_all add: ngroups_templates)
  moreover
  have "\<exists>w. grp m 2 = Inr w"
    by (rule grp_defined [OF assms _ _ all_groups_set(2)]) (simp_all add: ngroups_templates)
  ultimately show ?thesis by blast
qed

lemma pochiRe_groups:
  assumes "re_exec True pochiRe t = Some m"
  shows "\<exists>a b. grp m 1 = Inr a \<and> grp m 2 = Inr b"
proof -
  have "\<exists>w. grp m 1 = Inr w"
    by (rule grp_defined [OF assms _ _ all_groups_set(3)]) (simp_all add: ngroups_templates)
  moreover
  have "\<exists>w. grp m 2 = Inr w"
    by (rule grp_defined [OF assms _ _ all_groups_set(4)]) (simp_all add: ngroups_templates)
  ultimately show ?thesis by blast
qed

lemma paybillRe_groups:
  assumes "re_exec True paybillRe t = Some m"
  shows "\<exists>a b c. grp m 1 = Inr a \<and> grp m 2 = Inr b \<and> grp m 3 = Inr c"
proof -
  have "\<exists>w. grp m 1 = Inr w"
    by (rule grp_defined [OF assms _ _ all_groups_set(5)]) (simp_all add: ngroups_templates)
  moreover
  have "\<exists>w. grp m 2 = Inr w"
    by (rule grp_defined [OF assms _ _ all_groups_set(6)]) (simp_all add: ngroups_templates)
  moreover
  have "\<exists>w. grp m 3 = Inr w"
    by (rule grp_defined [OF assms _ _ all_groups_set(7)]) (simp_all add: ngroups_templates)
  ultimately show ?thesis by blast
qed

lemma tillRe_groups:
  assumes "re_exec True tillRe t = Some m"
  shows "\<exists>a b. grp m 1 = Inr a \<and> grp m 2 = Inr b"
proof -
  have "\<exists>w. grp m 1 = Inr w"
    by (rule grp_defined [OF assms _ _ all_groups_set(8)]) (simp_all add: ngroups_templates)
  moreover
  have "\<exists>w. grp m 2 = Inr w"
    by (rule grp_defined [OF assms _ _ all_groups_set(9)]) (simp_all add: ngroups_templates)
  ultimately show ?thesis by blast
qed

lemma withdrawRe_groups:
  assumes "re_exec True withdrawRe t = Some m"
  shows "\<exists>a b c. grp m 1 = Inr a \<and> grp m 2 = Inr b \<and> grp m 3 = Inr c"
proof -
  have "\<exists>w. grp m 1 = Inr w"
    by (rule grp_defined [OF assms _ _ all_groups_set(10)]) (simp_all add: ngroups_templates)
  moreover
  have "\<exists>w. grp m 2 = Inr w"
    by (rule grp_defined [OF assms _ _ all_groups_set(11)]) (simp_all add: ngroups_templates)
  moreover
  have "\<exists>w. grp m 3 = Inr w"
    by (rule grp_defined [OF assms _ _ all_groups_set(12)]) (simp_all add: ngroups_templates)
  ultimately show ?thesis by blast
qed

lemma namedRe_groups:
  assumes "re_exec True namedRe t = Some m"
  shows "\<exists>a b. grp m 1 = Inr a \<and> grp m 2 = Inr b"
proof -
  have "\<exists>w. grp m 1 = Inr w"
    by (rule grp_defined [OF assms _ _ all_groups_set(13)]) (simp_all add: ngroups_templates)
  moreover
  have "\<exists>w. grp m 2 = Inr w"
    by (rule grp_defined [OF assms _ _ all_groups_set(14)]) (simp_all add: ngroups_templates)
  ultimately show ?thesis by blast
qed

lemma parseIntent_never_throws: "\<exists>r. parseIntent t = Inr r"
proof (cases "re_exec True sendRe (trim t)")
  case (Some m)
  with sendRe_groups [OF Some] show ?thesis
    by (auto simp: parseIntent_def Let_def bindE_def)
next
  case s: None
  show ?thesis
  proof (cases "re_exec True pochiRe (trim t)")
    case (Some m)
    with pochiRe_groups [OF Some] s show ?thesis
      by (auto simp: parseIntent_def Let_def bindE_def)
  next
    case p: None
    show ?thesis
    proof (cases "re_exec True paybillRe (trim t)")
      case (Some m)
      with paybillRe_groups [OF Some] s p show ?thesis
        by (auto simp: parseIntent_def Let_def bindE_def)
    next
      case b: None
      show ?thesis
      proof (cases "re_exec True tillRe (trim t)")
        case (Some m)
        with tillRe_groups [OF Some] s p b show ?thesis
          by (auto simp: parseIntent_def Let_def bindE_def)
      next
        case l: None
        show ?thesis
        proof (cases "re_exec True withdrawRe (trim t)")
          case (Some m)
          with withdrawRe_groups [OF Some] s p b l show ?thesis
            by (auto simp: parseIntent_def Let_def bindE_def)
        next
          case d: None
          show ?thesis
          proof (cases "re_exec True namedRe (trim t)")
            case (Some m)
            with namedRe_groups [OF Some] s p b l d show ?thesis
              by (auto simp: parseIntent_def Let_def bindE_def)
          next
            case None
            with s p b l d show ?thesis by (simp add: parseIntent_def Let_def)
          qed
        qed
      qed
    qed
  qed
qed

section \<open>Resolving names\<close>

lemma david_facts:
  "toLowerCase (name David) = ''david''" "isMobileType David" "phone David = ''0712345678''"
  "trim ''david'' = ''david''" "trim ''dav'' = ''dav''" "trim ''David'' = ''David''"
  "toLowerCase ''david'' = ''david''" "toLowerCase ''dav'' = ''dav''" "toLowerCase ''David'' = ''david''"
  "\<not> isPhoneNumber ''david''" "\<not> isPhoneNumber ''dav''"
  "startsWith ''david'' ''dav''" "split_ws ''david'' = [''david'']"
  by code_simp+

lemma first_word_in_split: "takeWhile (\<lambda>c. \<not> isWhiteSpace c) s \<in> set (split_ws s)"
  by (subst split_ws.simps) (simp add: Let_def)

lemma startsWith_first_word:
  assumes "startsWith s q" and "list_all (\<lambda>c. \<not> isWhiteSpace c) q"
  shows "startsWith (takeWhile (\<lambda>c. \<not> isWhiteSpace c) s) q"
proof -
  from assms(1) obtain r where s: "s = q @ r" unfolding startsWith_def prefix_def by blast
  from assms(2) have "takeWhile (\<lambda>c. \<not> isWhiteSpace c) (q @ r) = q @ takeWhile (\<lambda>c. \<not> isWhiteSpace c) r"
    by (intro takeWhile_append2) (simp add: list_all_iff)
  with s show ?thesis unfolding startsWith_def by simp
qed

lemma david_word: "list_all (\<lambda>c. \<not> isWhiteSpace c) ''david''"
  by code_simp

lemma startsWith_nameHasWord:
  assumes "startsWith (toLowerCase (name c)) ''david''"
  shows "nameHasWord ''david'' c"
  unfolding nameHasWord_def list_ex_iff
  using first_word_in_split startsWith_first_word [OF assms david_word] by blast

lemma wordsOverlap_david: "wordsOverlap ''david'' c = nameHasWord ''david'' c"
  by (simp add: wordsOverlap_def nameHasWord_def Let_def david_facts)

lemma resolve_david_none:
  "resolvePhoneOrName dir ''david'' = None \<longleftrightarrow>
     (\<forall>c \<in> set dir. isMobileType c \<longrightarrow> \<not> nameHasWord ''david'' c)"
proof
  let ?cs = "filter isMobileType dir"
  assume none: "resolvePhoneOrName dir ''david'' = None"
  then have "List.find (wordsOverlap ''david'') ?cs = None"
    by (simp add: resolvePhoneOrName_def Let_def david_facts split: option.splits)
  then show "\<forall>c \<in> set dir. isMobileType c \<longrightarrow> \<not> nameHasWord ''david'' c"
    by (simp add: find_None_iff wordsOverlap_david)
next
  let ?cs = "filter isMobileType dir"
  assume cond: "\<forall>c \<in> set dir. isMobileType c \<longrightarrow> \<not> nameHasWord ''david'' c"
  have no: "\<not> nameHasWord ''david'' c" if "c \<in> set ?cs" for c
    using that cond by simp
  have "toLowerCase (name c) \<noteq> ''david''" if "c \<in> set ?cs" for c
  proof
    assume "toLowerCase (name c) = ''david''"
    then have "startsWith (toLowerCase (name c)) ''david''" by (simp add: startsWith_def)
    with no [OF that] show False using startsWith_nameHasWord by blast
  qed
  then have exact: "List.find (\<lambda>c. toLowerCase (name c) = ''david'') ?cs = None"
    unfolding find_None_iff by blast
  have partial: "List.find (\<lambda>c. startsWith (toLowerCase (name c)) ''david'') ?cs = None"
    unfolding find_None_iff using no startsWith_nameHasWord by blast
  have overlap: "List.find (wordsOverlap ''david'') ?cs = None"
    unfolding find_None_iff wordsOverlap_david using no by blast
  show "resolvePhoneOrName dir ''david'' = None"
    by (simp add: resolvePhoneOrName_def Let_def david_facts exact partial overlap)
qed

lemma find_first:
  assumes "P c" and "\<forall>b \<in> set before. \<not> P b"
  shows "List.find P (before @ c # after) = Some c"
  using assms by (induction before) simp_all

lemma find_first_filter:
  assumes "E c" and "P c" and "\<forall>b \<in> set before. E b \<longrightarrow> \<not> P b"
  shows "List.find P (filter E (before @ c # after)) = Some c"
proof -
  have "filter E (before @ c # after) = filter E before @ c # filter E after"
    using assms(1) by simp
  moreover have "\<forall>b \<in> set (filter E before). \<not> P b" using assms(3) by simp
  ultimately show ?thesis using assms(2) by (simp only: find_first)
qed

lemma find_none_filter:
  "List.find P (filter E dir) = None \<longleftrightarrow> (\<forall>b \<in> set dir. E b \<longrightarrow> \<not> P b)"
  by (auto simp: find_None_iff)

lemma find_none: "List.find P dir = None \<longleftrightarrow> (\<forall>b \<in> set dir. \<not> P b)"
  by (auto simp: find_None_iff)

lemma wordsOverlap_wordsBegin: "wordsOverlap (toLowerCase (trim q)) c = wordsBegin q c"
  by (simp add: wordsOverlap_def wordsBegin_def Let_def list_all_iff list_ex_iff startsWith_def)

lemma stage_preds:
  "(\<lambda>c. toLowerCase (name c) = toLowerCase (trim q)) = sameName q"
  "(\<lambda>c. startsWith (toLowerCase (name c)) (toLowerCase (trim q))) = nameBegins q"
  "wordsOverlap (toLowerCase (trim q)) = wordsBegin q"
  by (auto simp: sameName_def nameBegins_def startsWith_def wordsOverlap_wordsBegin)

lemma resolvePhoneOrName_stages:
  assumes "\<not> isPhoneNumber (trim q)"
  shows "resolvePhoneOrName dir q =
     (case List.find (sameName q) (filter isMobileType dir) of
        Some c \<Rightarrow> Some (phone c)
      | None \<Rightarrow>
     (case List.find (nameBegins q) (filter isMobileType dir) of
        Some c \<Rightarrow> Some (phone c)
      | None \<Rightarrow> map_option phone (List.find (wordsBegin q) (filter isMobileType dir))))"
  using assms by (simp add: resolvePhoneOrName_def Let_def stage_preds split: option.splits)

lemma resolveContact_stages:
  "resolveContact dir q =
     (case List.find (sameName q) dir of
        Some c \<Rightarrow> Some c
      | None \<Rightarrow>
     (case List.find (nameBegins q) dir of
        Some c \<Rightarrow> Some c
      | None \<Rightarrow> List.find (wordsBegin q) dir))"
  by (simp add: resolveContact_def Let_def stage_preds split: option.splits)

lemma phone_exact:
  assumes "\<not> isPhoneNumber (trim q)" and "isMobileType c" and "sameName q c"
    and "\<forall>b \<in> set before. isMobileType b \<longrightarrow> \<not> sameName q b"
  shows "resolvePhoneOrName (before @ c # after) q = Some (phone c)"
  by (simp only: resolvePhoneOrName_stages [OF assms(1)] find_first_filter [OF assms(2,3,4)]
        option.case)

lemma phone_prefix:
  assumes "\<not> isPhoneNumber (trim q)" and "isMobileType c" and "nameBegins q c"
    and "\<forall>b \<in> set (before @ c # after). isMobileType b \<longrightarrow> \<not> sameName q b"
    and "\<forall>b \<in> set before. isMobileType b \<longrightarrow> \<not> nameBegins q b"
  shows "resolvePhoneOrName (before @ c # after) q = Some (phone c)"
proof -
  have "List.find (sameName q) (filter isMobileType (before @ c # after)) = None"
    using assms(4) by (simp only: find_none_filter)
  then show ?thesis
    by (simp only: resolvePhoneOrName_stages [OF assms(1)] find_first_filter [OF assms(2,3,5)]
          option.case)
qed

lemma phone_words:
  assumes "\<not> isPhoneNumber (trim q)" and "isMobileType c" and "wordsBegin q c"
    and "\<forall>b \<in> set (before @ c # after). isMobileType b \<longrightarrow> \<not> sameName q b \<and> \<not> nameBegins q b"
    and "\<forall>b \<in> set before. isMobileType b \<longrightarrow> \<not> wordsBegin q b"
  shows "resolvePhoneOrName (before @ c # after) q = Some (phone c)"
proof -
  have "List.find (sameName q) (filter isMobileType (before @ c # after)) = None"
    and "List.find (nameBegins q) (filter isMobileType (before @ c # after)) = None"
    using assms(4) unfolding find_none_filter by blast+
  then show ?thesis
    by (simp only: resolvePhoneOrName_stages [OF assms(1)] find_first_filter [OF assms(2,3,5)]
          option.case option.map)
qed

lemma phone_none:
  assumes "\<not> isPhoneNumber (trim q)"
  shows "resolvePhoneOrName dir q = None \<longleftrightarrow>
     (\<forall>b \<in> set dir. isMobileType b \<longrightarrow> \<not> sameName q b \<and> \<not> nameBegins q b \<and> \<not> wordsBegin q b)"
proof -
  have "resolvePhoneOrName dir q = None \<longleftrightarrow>
      List.find (sameName q) (filter isMobileType dir) = None
      \<and> List.find (nameBegins q) (filter isMobileType dir) = None
      \<and> List.find (wordsBegin q) (filter isMobileType dir) = None"
    by (simp add: resolvePhoneOrName_stages [OF assms] split: option.splits)
  then show ?thesis unfolding find_none_filter by blast
qed

lemma contact_exact:
  assumes "sameName q c" and "\<forall>b \<in> set before. \<not> sameName q b"
  shows "resolveContact (before @ c # after) q = Some c"
  by (simp only: resolveContact_stages find_first [OF assms] option.case)

lemma contact_prefix:
  assumes "nameBegins q c"
    and "\<forall>b \<in> set (before @ c # after). \<not> sameName q b"
    and "\<forall>b \<in> set before. \<not> nameBegins q b"
  shows "resolveContact (before @ c # after) q = Some c"
proof -
  have "List.find (sameName q) (before @ c # after) = None"
    using assms(2) by (simp only: find_none)
  then show ?thesis
    by (simp only: resolveContact_stages find_first [OF assms(1,3)] option.case)
qed

lemma contact_words:
  assumes "wordsBegin q c"
    and "\<forall>b \<in> set (before @ c # after). \<not> sameName q b \<and> \<not> nameBegins q b"
    and "\<forall>b \<in> set before. \<not> wordsBegin q b"
  shows "resolveContact (before @ c # after) q = Some c"
proof -
  have "List.find (sameName q) (before @ c # after) = None"
    and "List.find (nameBegins q) (before @ c # after) = None"
    using assms(2) unfolding find_none by blast+
  then show ?thesis
    by (simp only: resolveContact_stages find_first [OF assms(1,3)] option.case)
qed

lemma contact_none:
  "resolveContact dir q = None \<longleftrightarrow>
     (\<forall>b \<in> set dir. \<not> sameName q b \<and> \<not> nameBegins q b \<and> \<not> wordsBegin q b)"
proof -
  have "resolveContact dir q = None \<longleftrightarrow>
      List.find (sameName q) dir = None \<and> List.find (nameBegins q) dir = None
      \<and> List.find (wordsBegin q) dir = None"
    by (simp add: resolveContact_stages split: option.splits)
  then show ?thesis unfolding find_none by blast
qed

lemma david_names:
  "sameName ''david'' David" "nameBegins ''dav'' David" "sameName ''David'' David"
  "\<not> sameName ''dav'' David"
  "\<not> isPhoneNumber (trim ''david'')" "\<not> isPhoneNumber (trim ''dav'')"
  by code_simp+

text \<open>
  C5, as amended. With the directory that holds just the contact David (mobile,
  0712345678), "david" and "dav" resolve to 0712345678 and resolveContact of "David" is
  that record. With any directory that holds David: "david" resolves to 0712345678 when
  no mobile, pochi or untyped contact before David is named "david", whatever names
  begin with "david"; "dav" resolves to 0712345678 when no mobile, pochi or untyped
  contact is named "dav" and none before David has a name that begins with "dav";
  resolveContact of "David" is David's record when no contact before David is named
  "david". The three stages come in that order, and each takes the first contact of the
  directory that matches: a contact whose name is the query wins over every contact
  whose name only begins with it, such a contact over every contact matched by words,
  and the result is none exactly when no contact matches in any of the three ways;
  resolvePhoneOrName looks at mobile, pochi and untyped contacts only, resolveContact at
  all. The query "david" resolves to none exactly when no mobile, pochi or untyped
  contact has a name with a word that starts with "david"; so it does for a directory
  whose one contact is a till or a paybill named David.
\<close>

theorem resolve_saved_contact:
  "resolvePhoneOrName [David] ''david'' = Some ''0712345678''
   \<and> resolvePhoneOrName [David] ''dav'' = Some ''0712345678''
   \<and> resolveContact [David] ''David'' = Some David
   \<and> (\<forall>before after.
        (\<forall>b \<in> set before. isMobileType b \<longrightarrow> \<not> sameName ''david'' b) \<longrightarrow>
        resolvePhoneOrName (before @ David # after) ''david'' = Some ''0712345678'')
   \<and> (\<forall>before after.
        (\<forall>b \<in> set (before @ after). isMobileType b \<longrightarrow> \<not> sameName ''dav'' b)
        \<and> (\<forall>b \<in> set before. isMobileType b \<longrightarrow> \<not> nameBegins ''dav'' b) \<longrightarrow>
        resolvePhoneOrName (before @ David # after) ''dav'' = Some ''0712345678'')
   \<and> (\<forall>before after.
        (\<forall>b \<in> set before. \<not> sameName ''David'' b) \<longrightarrow>
        resolveContact (before @ David # after) ''David'' = Some David)
   \<and> (\<forall>before c after q.
        \<not> isPhoneNumber (trim q) \<and> isMobileType c \<and> sameName q c
        \<and> (\<forall>b \<in> set before. isMobileType b \<longrightarrow> \<not> sameName q b) \<longrightarrow>
        resolvePhoneOrName (before @ c # after) q = Some (phone c))
   \<and> (\<forall>before c after q.
        \<not> isPhoneNumber (trim q) \<and> isMobileType c \<and> nameBegins q c
        \<and> (\<forall>b \<in> set (before @ c # after). isMobileType b \<longrightarrow> \<not> sameName q b)
        \<and> (\<forall>b \<in> set before. isMobileType b \<longrightarrow> \<not> nameBegins q b) \<longrightarrow>
        resolvePhoneOrName (before @ c # after) q = Some (phone c))
   \<and> (\<forall>before c after q.
        \<not> isPhoneNumber (trim q) \<and> isMobileType c \<and> wordsBegin q c
        \<and> (\<forall>b \<in> set (before @ c # after).
               isMobileType b \<longrightarrow> \<not> sameName q b \<and> \<not> nameBegins q b)
        \<and> (\<forall>b \<in> set before. isMobileType b \<longrightarrow> \<not> wordsBegin q b) \<longrightarrow>
        resolvePhoneOrName (before @ c # after) q = Some (phone c))
   \<and> (\<forall>dir q.
        \<not> isPhoneNumber (trim q) \<longrightarrow>
        (resolvePhoneOrName dir q = None \<longleftrightarrow>
           (\<forall>b \<in> set dir. isMobileType b \<longrightarrow>
              \<not> sameName q b \<and> \<not> nameBegins q b \<and> \<not> wordsBegin q b)))
   \<and> (\<forall>before c after q.
        sameName q c \<and> (\<forall>b \<in> set before. \<not> sameName q b) \<longrightarrow>
        resolveContact (before @ c # after) q = Some c)
   \<and> (\<forall>before c after q.
        nameBegins q c
        \<and> (\<forall>b \<in> set (before @ c # after). \<not> sameName q b)
        \<and> (\<forall>b \<in> set before. \<not> nameBegins q b) \<longrightarrow>
        resolveContact (before @ c # after) q = Some c)
   \<and> (\<forall>before c after q.
        wordsBegin q c
        \<and> (\<forall>b \<in> set (before @ c # after). \<not> sameName q b \<and> \<not> nameBegins q b)
        \<and> (\<forall>b \<in> set before. \<not> wordsBegin q b) \<longrightarrow>
        resolveContact (before @ c # after) q = Some c)
   \<and> (\<forall>dir q.
        resolveContact dir q = None \<longleftrightarrow>
          (\<forall>b \<in> set dir. \<not> sameName q b \<and> \<not> nameBegins q b \<and> \<not> wordsBegin q b))
   \<and> (\<forall>dir. resolvePhoneOrName dir ''david'' = None \<longleftrightarrow>
          (\<forall>c \<in> set dir. isMobileType c \<longrightarrow> \<not> nameHasWord ''david'' c))
   \<and> (\<forall>t ph acc. t = Till \<or> t = Paybill \<longrightarrow>
          resolvePhoneOrName [\<lparr> name = ''David'', type = Some t, phone = ph, accountNumber = acc \<rparr>]
            ''david'' = None)"
proof (intro conjI allI impI)
  have m: "isMobileType David" and p: "phone David = ''0712345678''"
    by (simp_all add: david_facts)
  have exact: "resolvePhoneOrName (before @ David # after) ''david'' = Some ''0712345678''"
    if "\<forall>b \<in> set before. isMobileType b \<longrightarrow> \<not> sameName ''david'' b" for before after
    using phone_exact [OF david_names(5) m david_names(1) that] p by simp
  have part: "resolvePhoneOrName (before @ David # after) ''dav'' = Some ''0712345678''"
    if h: "(\<forall>b \<in> set (before @ after). isMobileType b \<longrightarrow> \<not> sameName ''dav'' b)
        \<and> (\<forall>b \<in> set before. isMobileType b \<longrightarrow> \<not> nameBegins ''dav'' b)" for before after
  proof -
    from h david_names(4)
    have "\<forall>b \<in> set (before @ David # after). isMobileType b \<longrightarrow> \<not> sameName ''dav'' b"
      by auto
    moreover from h have "\<forall>b \<in> set before. isMobileType b \<longrightarrow> \<not> nameBegins ''dav'' b"
      by simp
    ultimately show ?thesis
      using phone_prefix [OF david_names(6) m david_names(2)] p by simp
  qed
  have whole: "resolveContact (before @ David # after) ''David'' = Some David"
    if "\<forall>b \<in> set before. \<not> sameName ''David'' b" for before after
    using david_names(3) that by (rule contact_exact)
  show "resolvePhoneOrName [David] ''david'' = Some ''0712345678''"
    using exact [of "[]" "[]"] by simp
  show "resolvePhoneOrName [David] ''dav'' = Some ''0712345678''"
    using part [of "[]" "[]"] by simp
  show "resolveContact [David] ''David'' = Some David"
    using whole [of "[]" "[]"] by simp
  show "resolvePhoneOrName (before @ David # after) ''david'' = Some ''0712345678''"
    if "\<forall>b \<in> set before. isMobileType b \<longrightarrow> \<not> sameName ''david'' b" for before after
    using that by (rule exact)
  show "resolvePhoneOrName (before @ David # after) ''dav'' = Some ''0712345678''"
    if "(\<forall>b \<in> set (before @ after). isMobileType b \<longrightarrow> \<not> sameName ''dav'' b)
        \<and> (\<forall>b \<in> set before. isMobileType b \<longrightarrow> \<not> nameBegins ''dav'' b)" for before after
    using that by (rule part)
  show "resolveContact (before @ David # after) ''David'' = Some David"
    if "\<forall>b \<in> set before. \<not> sameName ''David'' b" for before after
    using that by (rule whole)
next
  fix before c after q
  assume "\<not> isPhoneNumber (trim q) \<and> isMobileType c \<and> sameName q c
        \<and> (\<forall>b \<in> set before. isMobileType b \<longrightarrow> \<not> sameName q b)"
  then show "resolvePhoneOrName (before @ c # after) q = Some (phone c)"
    using phone_exact by blast
next
  fix before c after q
  assume "\<not> isPhoneNumber (trim q) \<and> isMobileType c \<and> nameBegins q c
        \<and> (\<forall>b \<in> set (before @ c # after). isMobileType b \<longrightarrow> \<not> sameName q b)
        \<and> (\<forall>b \<in> set before. isMobileType b \<longrightarrow> \<not> nameBegins q b)"
  then show "resolvePhoneOrName (before @ c # after) q = Some (phone c)"
    using phone_prefix by blast
next
  fix before c after q
  assume "\<not> isPhoneNumber (trim q) \<and> isMobileType c \<and> wordsBegin q c
        \<and> (\<forall>b \<in> set (before @ c # after).
               isMobileType b \<longrightarrow> \<not> sameName q b \<and> \<not> nameBegins q b)
        \<and> (\<forall>b \<in> set before. isMobileType b \<longrightarrow> \<not> wordsBegin q b)"
  then show "resolvePhoneOrName (before @ c # after) q = Some (phone c)"
    using phone_words by blast
next
  fix dir q
  assume "\<not> isPhoneNumber (trim q)"
  then show "resolvePhoneOrName dir q = None \<longleftrightarrow>
           (\<forall>b \<in> set dir. isMobileType b \<longrightarrow>
              \<not> sameName q b \<and> \<not> nameBegins q b \<and> \<not> wordsBegin q b)"
    by (rule phone_none)
next
  fix before c after q
  assume "sameName q c \<and> (\<forall>b \<in> set before. \<not> sameName q b)"
  then show "resolveContact (before @ c # after) q = Some c"
    using contact_exact by blast
next
  fix before c after q
  assume "nameBegins q c
        \<and> (\<forall>b \<in> set (before @ c # after). \<not> sameName q b)
        \<and> (\<forall>b \<in> set before. \<not> nameBegins q b)"
  then show "resolveContact (before @ c # after) q = Some c"
    using contact_prefix by blast
next
  fix before c after q
  assume "wordsBegin q c
        \<and> (\<forall>b \<in> set (before @ c # after). \<not> sameName q b \<and> \<not> nameBegins q b)
        \<and> (\<forall>b \<in> set before. \<not> wordsBegin q b)"
  then show "resolveContact (before @ c # after) q = Some c"
    using contact_words by blast
next
  fix dir q
  show "resolveContact dir q = None \<longleftrightarrow>
          (\<forall>b \<in> set dir. \<not> sameName q b \<and> \<not> nameBegins q b \<and> \<not> wordsBegin q b)"
    by (rule contact_none)
next
  fix dir
  show "resolvePhoneOrName dir ''david'' = None \<longleftrightarrow>
          (\<forall>c \<in> set dir. isMobileType c \<longrightarrow> \<not> nameHasWord ''david'' c)"
    by (rule resolve_david_none)
next
  fix t :: ContactType and ph acc
  assume "t = Till \<or> t = Paybill"
  then show "resolvePhoneOrName [\<lparr> name = ''David'', type = Some t, phone = ph, accountNumber = acc \<rparr>]
            ''david'' = None"
    unfolding resolve_david_none by (auto simp: isMobileType_def)
qed

theorem resolve_saved_contact_witness:
  "nameBegins ''david'' Davidson
   \<and> resolvePhoneOrName [Davidson, David] ''david'' = Some ''0712345678''
   \<and> resolvePhoneOrName [David, Davidson] ''dav'' = Some ''0712345678''
   \<and> resolvePhoneOrName [Dave, David] ''dav'' = Some ''0722222222''
   \<and> resolvePhoneOrName [David, MamaMboga] ''mboga'' = Some ''0733333333''
   \<and> resolveContact [Davidson, David] ''David'' = Some David
   \<and> resolveContact [Davidson, David] ''dav'' = Some Davidson
   \<and> resolvePhoneOrName
         [\<lparr> name = ''David'', type = Some Till, phone = ''522533'', accountNumber = None \<rparr>]
         ''david'' = None"
proof -
  note david_exact = resolve_saved_contact
    [THEN conjunct2, THEN conjunct2, THEN conjunct2, THEN conjunct1, rule_format]
  note david_prefix = resolve_saved_contact
    [THEN conjunct2, THEN conjunct2, THEN conjunct2, THEN conjunct2, THEN conjunct1, rule_format]
  note david_record = resolve_saved_contact
    [THEN conjunct2, THEN conjunct2, THEN conjunct2, THEN conjunct2, THEN conjunct2,
     THEN conjunct1, rule_format]
  note rest = resolve_saved_contact
    [THEN conjunct2, THEN conjunct2, THEN conjunct2, THEN conjunct2, THEN conjunct2,
     THEN conjunct2]
  note by_prefix = rest [THEN conjunct2, THEN conjunct1, rule_format]
  note by_words = rest [THEN conjunct2, THEN conjunct2, THEN conjunct1, rule_format]
  note rest' = rest [THEN conjunct2, THEN conjunct2, THEN conjunct2, THEN conjunct2]
  note record_prefix = rest' [THEN conjunct2, THEN conjunct1, rule_format]
  note till = rest' [THEN conjunct2, THEN conjunct2, THEN conjunct2, THEN conjunct2,
     THEN conjunct2, rule_format]
  have a: "nameBegins ''david'' Davidson" by code_simp
  have h1: "\<forall>b \<in> set [Davidson]. isMobileType b \<longrightarrow> \<not> sameName ''david'' b" by code_simp
  have b: "resolvePhoneOrName [Davidson, David] ''david'' = Some ''0712345678''"
    using david_exact [of "[Davidson]" "[]"] h1 by simp
  have h2: "(\<forall>b \<in> set ([] @ [Davidson]). isMobileType b \<longrightarrow> \<not> sameName ''dav'' b)
        \<and> (\<forall>b \<in> set []. isMobileType b \<longrightarrow> \<not> nameBegins ''dav'' b)" by code_simp
  have c: "resolvePhoneOrName [David, Davidson] ''dav'' = Some ''0712345678''"
    using david_prefix [of "[]" "[Davidson]", OF h2] by simp
  have h3: "\<not> isPhoneNumber (trim ''dav'') \<and> isMobileType Dave \<and> nameBegins ''dav'' Dave
        \<and> (\<forall>b \<in> set ([] @ Dave # [David]). isMobileType b \<longrightarrow> \<not> sameName ''dav'' b)
        \<and> (\<forall>b \<in> set []. isMobileType b \<longrightarrow> \<not> nameBegins ''dav'' b)" by code_simp
  have p3: "phone Dave = ''0722222222''" by (simp add: Dave_def)
  have d: "resolvePhoneOrName [Dave, David] ''dav'' = Some ''0722222222''"
    using by_prefix [of "''dav''" Dave "[]" "[David]", OF h3] p3 by simp
  have h4: "\<not> isPhoneNumber (trim ''mboga'') \<and> isMobileType MamaMboga \<and> wordsBegin ''mboga'' MamaMboga
        \<and> (\<forall>b \<in> set ([David] @ MamaMboga # []).
               isMobileType b \<longrightarrow> \<not> sameName ''mboga'' b \<and> \<not> nameBegins ''mboga'' b)
        \<and> (\<forall>b \<in> set [David]. isMobileType b \<longrightarrow> \<not> wordsBegin ''mboga'' b)" by code_simp
  have p4: "phone MamaMboga = ''0733333333''" by (simp add: MamaMboga_def)
  have e: "resolvePhoneOrName [David, MamaMboga] ''mboga'' = Some ''0733333333''"
    using by_words [of "''mboga''" MamaMboga "[David]" "[]", OF h4] p4 by simp
  have h5: "\<forall>b \<in> set [Davidson]. \<not> sameName ''David'' b" by code_simp
  have f: "resolveContact [Davidson, David] ''David'' = Some David"
    using david_record [of "[Davidson]" "[]"] h5 by simp
  have h6: "nameBegins ''dav'' Davidson
        \<and> (\<forall>b \<in> set ([] @ Davidson # [David]). \<not> sameName ''dav'' b)
        \<and> (\<forall>b \<in> set []. \<not> nameBegins ''dav'' b)" by code_simp
  have g: "resolveContact [Davidson, David] ''dav'' = Some Davidson"
    using record_prefix [of "''dav''" Davidson "[]" "[David]", OF h6] by simp
  have h: "resolvePhoneOrName
         [\<lparr> name = ''David'', type = Some Till, phone = ''522533'', accountNumber = None \<rparr>]
         ''david'' = None"
    using till [of Till "''522533''" None] by simp
  from a b c d e f g h show ?thesis by (intro conjI)
qed

text \<open>
  C5 as stated fails. In the first directory the only contact named David is a till,
  and "david" resolves to the number of the mobile contact Davidson, by the prefix
  match. The second directory holds David, and "dav" resolves to the number of Dave,
  whose name begins with "dav" and who comes first.
\<close>

theorem david_till_counterexample:
  "resolvePhoneOrName
     [\<lparr> name = ''David'', type = Some Till, phone = ''522533'', accountNumber = None \<rparr>,
      \<lparr> name = ''Davidson'', type = Some Mobile, phone = ''0711111111'', accountNumber = None \<rparr>]
     ''david'' = Some ''0711111111''
   \<and> resolvePhoneOrName
     [\<lparr> name = ''Dave'', type = Some Mobile, phone = ''0722222222'', accountNumber = None \<rparr>,
      \<lparr> name = ''David'', type = Some Mobile, phone = ''0712345678'', accountNumber = None \<rparr>]
     ''dav'' = Some ''0722222222''"
  by code_simp

section \<open>Properties of the command session\<close>

lemma resolveNamed_concrete:
  "resolveNamed dir a n = Inr r \<Longrightarrow> isConcrete r"
  by (auto simp: resolveNamed_def split: option.splits ContactType.splits if_splits)

lemma resolveIntent_concrete:
  "resolveIntent dir i = Inr r \<Longrightarrow> isConcrete r"
  by (cases i) (auto simp: resolveIntent_def map_sum_def dest: resolveNamed_concrete split: sum.splits)

lemma sound_emit:
  "sound w \<Longrightarrow> (\<And>i. e = Submit i \<Longrightarrow> isConcrete i) \<Longrightarrow> sound (emit e w)"
  by (auto simp: sound_def emit_def)

lemma sound_reset: "sound w \<Longrightarrow> sound (reset w)"
  by (simp add: sound_def reset_def)

lemma sound_setError: "sound w \<Longrightarrow> state w \<noteq> confirming \<Longrightarrow> sound (setError msg w)"
  by (auto simp: sound_def setError_def emit_def)

lemma sound_executeConfirm:
  assumes "sound w" and "isConcrete i"
  shows "sound (executeConfirm i raw w)"
proof -
  have s1: "sound (case learnedContact i raw of None \<Rightarrow> w
              | Some c \<Rightarrow> emit (SaveContact c) (w\<lparr> contacts := saveVoiceContact c (contacts w) \<rparr>))"
    using assms(1) by (auto simp: sound_def emit_def split: option.splits)
  show ?thesis
    unfolding executeConfirm_def Let_def
    by (intro sound_emit sound_reset s1) (simp_all add: assms(2))
qed

lemma sound_initial: "sound (initial dir)"
  by (simp add: sound_def initial_def)

lemma sound_edit: "sound w \<Longrightarrow> sound (w\<lparr> contacts := dir \<rparr>)"
  by (simp add: sound_def)

lemma sound_cancel: "sound w \<Longrightarrow> sound (cancel w)"
  unfolding cancel_def by (intro sound_emit sound_reset) simp_all

lemma sound_confirm: "sound w \<Longrightarrow> sound (confirm w)"
proof (cases "pendingIntentRef w")
  case None
  assume "sound w"
  with None show ?thesis by (simp add: confirm_def)
next
  case (Some i)
  assume w: "sound w"
  with Some have "isConcrete i" by (simp add: sound_def)
  moreover have "sound (emit CancelSpeech w)" using w by (rule sound_emit) simp
  ultimately show ?thesis using Some by (simp add: confirm_def sound_executeConfirm)
qed

lemma sound_on_command:
  assumes "sound w" and "pendingIntent w = None" and "on_command cmd w = (pc, w2)"
  shows "sound w2"
proof (cases cmd)
  case (NotHeard err)
  with assms show ?thesis by (auto simp: on_command_def sound_def setError_def emit_def)
next
  case (Heard raw)
  let ?w1 = "w\<lparr> transcript := raw, transcriptRef := raw, state := processing \<rparr>"
  have w1: "sound ?w1" using assms(1,2) by (simp add: sound_def)
  have st: "state ?w1 \<noteq> confirming" by simp
  show ?thesis
  proof (cases "parseIntent raw")
    case (Inl e)
    with assms(3) Heard w1 show ?thesis by (simp add: on_command_def Let_def)
  next
    case (Inr res)
    show ?thesis
    proof (cases res)
      case None
      with assms(3) Heard Inr have "w2 = setError
          ''Sorry, I didn't catch that. Try: send 500 shillings to 0712345678.'' ?w1"
        by (simp add: on_command_def Let_def)
      with sound_setError [OF w1 st] show ?thesis by simp
    next
      case (Some intent)
      show ?thesis
      proof (cases "resolveIntent (contacts ?w1) intent")
        case (Inl msg)
        with assms(3) Heard Inr Some have "w2 = setError msg ?w1"
          by (simp add: on_command_def Let_def)
        with sound_setError [OF w1 st] show ?thesis by simp
      next
        case r: (Inr resolved)
        then have "isConcrete resolved" by (rule resolveIntent_concrete)
        moreover from assms(3) Heard Inr Some r have "w2 = snd (readback resolved raw ?w1)"
          by (simp add: on_command_def Let_def)
        ultimately show ?thesis using w1
          by (auto simp: readback_def sound_def emit_def)
      qed
    qed
  qed
qed

lemma on_command_readback:
  assumes "on_command cmd w = (AwaitReadback i raw, w2)"
  shows "cmd = Heard raw"
    and "\<exists>p. parseIntent raw = Inr (Some p) \<and> resolveIntent (contacts w) p = Inr i"
    and "w2 = emit (Speak (describeIntent i @ '' Say yes to confirm, or no to cancel.''))
                (w\<lparr> transcript := raw, transcriptRef := raw, pendingIntent := Some i,
                    pendingIntentRef := Some i, state := confirming \<rparr>)"
  using assms
  by (auto simp: on_command_def Let_def readback_def
           split: capture.splits sum.splits option.splits)

lemma on_command_stops:
  assumes "on_command cmd w = (pc, w2)" and "\<And>i raw. pc \<noteq> AwaitReadback i raw"
  shows "pc = Returned \<and> state w2 = error \<and> contacts w2 = contacts w
         \<and> executions w2 = executions w \<and> pendingIntent w2 = pendingIntent w
         \<and> pendingIntentRef w2 = pendingIntentRef w"
proof (cases cmd)
  case (NotHeard err)
  with assms(1) show ?thesis
    by (auto simp: on_command_def setError_def emit_def executions_def)
next
  case (Heard raw)
  from parseIntent_never_throws obtain res where res: "parseIntent raw = Inr res" by blast
  show ?thesis
  proof (cases res)
    case None
    with assms(1) Heard res show ?thesis
      by (auto simp: on_command_def Let_def setError_def emit_def executions_def)
  next
    case (Some intent)
    show ?thesis
    proof (cases "resolveIntent (contacts w) intent")
      case (Inl msg)
      with assms(1) Heard res Some show ?thesis
        by (auto simp: on_command_def Let_def setError_def emit_def executions_def)
    next
      case (Inr resolved)
      with assms(1) Heard res Some have "pc = AwaitReadback resolved raw"
        by (auto simp: on_command_def Let_def readback_def)
      with assms(2) show ?thesis by blast
    qed
  qed
qed

lemma start_unsupported:
  "start False cmd ans w =
     [setError ''Voice commands are not supported in this browser. Try Chrome or Safari.'' w]"
  by (simp add: start_def start_call_def)

lemma start_asked:
  assumes "on_command cmd (listening_from w) = (AwaitReadback i raw, w2)"
  shows "start True cmd ans w =
     [listening_from w, w2, w2\<lparr> state := awaiting_confirmation \<rparr>,
      on_answer i raw ans (w2\<lparr> state := awaiting_confirmation \<rparr>)]"
  using assms by (simp add: start_def start_call_def listening_from_def on_readback_def)

lemma start_stopped:
  assumes "on_command cmd (listening_from w) = (pc, w2)" and "\<And>i raw. pc \<noteq> AwaitReadback i raw"
  shows "start True cmd ans w = [listening_from w, w2]"
proof -
  from on_command_stops [OF assms] have "pc = Returned" by blast
  with assms(1) show ?thesis
    by (simp add: start_def start_call_def listening_from_def)
qed

lemma start_four:
  assumes "start isSupported cmd ans w = [w1, w2, w3, w4]"
  obtains i raw where "isSupported" and "w1 = listening_from w"
    and "on_command cmd w1 = (AwaitReadback i raw, w2)"
    and "w3 = w2\<lparr> state := awaiting_confirmation \<rparr>" and "w4 = on_answer i raw ans w3"
proof (cases isSupported)
  case False
  with assms show ?thesis by (simp add: start_unsupported)
next
  case True
  obtain pc v where oc: "on_command cmd (listening_from w) = (pc, v)"
    by (cases "on_command cmd (listening_from w)")
  show ?thesis
  proof (cases "\<exists>i raw. pc = AwaitReadback i raw")
    case False
    then have "\<And>i raw. pc \<noteq> AwaitReadback i raw" by blast
    from start_stopped [OF oc this] assms True show ?thesis by simp
  next
    case ex: True
    then obtain i raw where "pc = AwaitReadback i raw" by blast
    with oc have oc': "on_command cmd (listening_from w) = (AwaitReadback i raw, v)" by simp
    from start_asked [OF oc', of ans] assms True
    have eqs: "w1 = listening_from w" "w2 = v" "w3 = w2\<lparr> state := awaiting_confirmation \<rparr>"
      "w4 = on_answer i raw ans w3"
      by auto
    from oc' eqs(1,2) have "on_command cmd w1 = (AwaitReadback i raw, w2)" by simp
    from that [OF True eqs(1) this eqs(3) eqs(4)] show ?thesis .
  qed
qed

lemma listening_from_facts:
  "state (listening_from w) = listening" "pendingIntent (listening_from w) = None"
  "pendingIntentRef (listening_from w) = None" "errorMessage (listening_from w) = []"
  "contacts (listening_from w) = contacts w" "executions (listening_from w) = executions w"
  by (simp_all add: listening_from_def emit_def executions_def)

lemma sound_listening_from: "sound w \<Longrightarrow> sound (listening_from w)"
  by (auto simp: sound_def listening_from_def emit_def)

lemma sound_on_answer:
  assumes "sound w" and "pendingIntent w = Some i"
  shows "sound (on_answer i raw ans w)"
proof (cases ans)
  case (NotHeard err)
  with assms show ?thesis by (auto simp: on_answer_def sound_def emit_def)
next
  case (Heard response)
  from assms have c: "isConcrete i" by (simp add: sound_def)
  show ?thesis
  proof (cases "re_test True yesRe (trim response)")
    case True
    with Heard show ?thesis by (simp add: on_answer_def sound_executeConfirm [OF assms(1) c])
  next
    case False
    have "sound (emit Dismiss (reset (emit (Speak ''Okay, no problem. Cancelled.'') w)))"
      using assms(1) by (intro sound_emit sound_reset) simp_all
    with False Heard show ?thesis by (simp add: on_answer_def)
  qed
qed

lemma sound_start:
  assumes "sound w" and "w' \<in> set (start isSupported cmd ans w)"
  shows "sound w'"
proof (cases isSupported)
  case False
  with assms show ?thesis
    by (auto simp: start_unsupported sound_def setError_def emit_def)
next
  case True
  have l: "sound (listening_from w)" using assms(1) by (rule sound_listening_from)
  obtain pc w2 where oc: "on_command cmd (listening_from w) = (pc, w2)"
    by (cases "on_command cmd (listening_from w)")
  have w2: "sound w2"
    using l listening_from_facts(2) oc by (rule sound_on_command)
  show ?thesis
  proof (cases "\<exists>i raw. pc = AwaitReadback i raw")
    case False
    then have "\<And>i raw. pc \<noteq> AwaitReadback i raw" by blast
    from start_stopped [OF oc this] assms(2) True l w2 show ?thesis by auto
  next
    case ex: True
    then obtain i raw where pc: "pc = AwaitReadback i raw" by blast
    with oc have oc': "on_command cmd (listening_from w) = (AwaitReadback i raw, w2)" by simp
    let ?w3 = "w2\<lparr> state := awaiting_confirmation \<rparr>"
    from on_command_readback(3) [OF oc'] have p: "pendingIntent w2 = Some i"
      by (simp add: emit_def)
    with w2 have w3: "sound ?w3" by (simp add: sound_def)
    from p have "pendingIntent ?w3 = Some i" by simp
    with w3 have w4: "sound (on_answer i raw ans ?w3)" by (rule sound_on_answer)
    from start_asked [OF oc'] assms(2) True l w2 w3 w4 show ?thesis by auto
  qed
qed

lemma executeConfirm_effects:
  "effects (executeConfirm i raw w) =
     effects w @ (case learnedContact i raw of None \<Rightarrow> [] | Some c \<Rightarrow> [SaveContact c])
       @ [CancelSpeech, Speak ''Perfect, sending now via remote push.'', Dismiss, Submit i]"
  by (simp add: executeConfirm_def Let_def emit_def reset_def split: option.splits)

lemma executeConfirm_state:
  "state (executeConfirm i raw w) = idle" "pendingIntent (executeConfirm i raw w) = None"
  "pendingIntentRef (executeConfirm i raw w) = None"
  by (simp_all add: executeConfirm_def Let_def emit_def reset_def split: option.splits)

lemma resolveNamed_rewrites:
  assumes "resolveNamed dir a n = Inr r"
  shows "\<exists>c. resolveContact dir n = Some c \<and>
     ((type c = Some Till \<and> r = TILL a (phone c))
      \<or> (type c = Some Paybill \<and> (\<exists>acc. accountNumber c = Some acc \<and> acc \<noteq> [] \<and> r = PAYBILL a (phone c) acc))
      \<or> (type c = Some Pochi \<and> r = POCHI a (phone c))
      \<or> ((type c = Some Mobile \<or> type c = None) \<and> r = SEND_MONEY a (phone c)))"
  using assms
  by (auto simp: resolveNamed_def split: option.splits ContactType.splits if_splits)

lemma canonicalize_True: "canonicalize True = toUpperChar"
  by (rule ext) (simp add: canonicalize_def)

lemma ms_Chars_Nil:
  "ms True inp (Chars p) (c, s) = [] \<longleftrightarrow> \<not> beginsIgnoringCase s p"
  by (simp add: beginsIgnoringCase_def canonicalize_True)

lemma ms_Alt_Nil:
  "ms ic inp (Alt a b) st = [] \<longleftrightarrow> ms ic inp a st = [] \<and> ms ic inp b st = []"
  by simp

lemma ms_Group_Nil:
  "ms ic inp (Group n r) (c, s) = [] \<longleftrightarrow> ms ic inp r (c, s) = []"
  by simp

lemma ms_Bol_start: "ms ic inp Bol (c, inp) = [(c, inp)]"
  by simp

lemma yesRe_test: "re_test True yesRe s \<longleftrightarrow> beginsWithYesWord s"
proof -
  have "re_test True yesRe s \<longleftrightarrow>
          ms True s (Group 1 (alts [Chars ''yes'', Chars ''yeah'', Chars ''yep'', Chars ''yup'',
            Chars ''confirm'', Chars ''send'', Chars ''do it'', Chars ''go'', Chars ''ok'',
            Chars ''okay''])) ([None, None], s) \<noteq> []"
    unfolding re_test_def yesRe_def re_exec_Bol matchAt_None_iff ms_Seq_Nil
    by (simp only: ngroups.simps alts.simps drop_0 ms_Bol_start) simp
  also have "\<dots> \<longleftrightarrow> beginsWithYesWord s"
    unfolding ms_Group_Nil alts.simps ms_Alt_Nil ms_Chars_Nil beginsWithYesWord_def yesWords_def
    by simp
  finally show ?thesis .
qed

lemma four_states:
  assumes "length xs = 4"
  shows "xs = [xs ! 0, xs ! 1, xs ! 2, xs ! 3]"
proof -
  from assms obtain a b c d where "xs = [a, b, c, d]"
    by (auto simp: length_Suc_conv numeral_eq_Suc)
  then show ?thesis by simp
qed

lemma executeConfirm_last: "last (effects (executeConfirm i raw w)) = Submit i"
  by (simp add: executeConfirm_effects)

lemma cancelled_answer:
  "executions (emit Dismiss (reset (emit (Speak t) w))) = executions w"
  "contacts (emit Dismiss (reset (emit (Speak t) w))) = contacts w"
  "state (emit Dismiss (reset (emit (Speak t) w))) = idle"
  "pendingIntent (emit Dismiss (reset (emit (Speak t) w))) = None"
  "pendingIntentRef (emit Dismiss (reset (emit (Speak t) w))) = None"
  by (simp_all add: executions_def emit_def reset_def)

lemma awaiting_state:
  assumes "on_command cmd (listening_from w) = (AwaitReadback i raw, w2)"
    and "w3 = w2\<lparr> state := awaiting_confirmation \<rparr>"
  shows "state w3 = awaiting_confirmation" and "pendingIntent w3 = Some i"
    and "pendingIntentRef w3 = Some i" and "transcriptRef w3 = raw"
    and "errorMessage w3 = []" and "contacts w3 = contacts w" and "executions w3 = executions w"
  using on_command_readback(3) [OF assms(1)] assms(2)
  by (simp_all add: emit_def executions_def listening_from_def)

lemma run_to_answer:
  assumes "parseIntent raw = Inr (Some p)" and "resolveIntent (contacts w) p = Inr i"
  shows "\<exists>w1 w2 w3. start True (Heard raw) ans w = [w1, w2, w3, on_answer i raw ans w3]
           \<and> state w3 = awaiting_confirmation \<and> pendingIntent w3 = Some i
           \<and> pendingIntentRef w3 = Some i \<and> transcriptRef w3 = raw
           \<and> contacts w3 = contacts w \<and> executions w3 = executions w"
proof -
  obtain w2 where oc: "on_command (Heard raw) (listening_from w) = (AwaitReadback i raw, w2)"
    using assms by (simp add: on_command_def Let_def readback_def listening_from_facts)
  let ?w3 = "w2\<lparr> state := awaiting_confirmation \<rparr>"
  note aw = awaiting_state [OF oc refl]
  from start_asked [OF oc, of ans] aw show ?thesis by blast
qed

lemma cancel_facts:
  "state (cancel w) = idle" "pendingIntent (cancel w) = None" "pendingIntentRef (cancel w) = None"
  "contacts (cancel w) = contacts w" "executions (cancel w) = executions w"
  "effects (cancel w) = effects w @ [CancelSpeech, Speak ''Okay, cancelled.'', Dismiss]"
  by (simp_all add: cancel_def emit_def reset_def executions_def)

lemma safe_iff:
  "safe (ks, w) \<longleftrightarrow> safe_session w \<and> (\<forall>k \<in> set ks. \<forall>i. held k = Some i \<longrightarrow> isConcrete i)"
  by (auto simp: safe_def safe_session_def)

lemma safe_emit:
  "safe_session w \<Longrightarrow> (\<And>i. e = Submit i \<Longrightarrow> isConcrete i) \<Longrightarrow> safe_session (emit e w)"
  by (auto simp: safe_session_def emit_def)

lemma safe_reset: "safe_session w \<Longrightarrow> safe_session (reset w)"
  by (simp add: safe_session_def reset_def)

lemma safe_setError: "safe_session w \<Longrightarrow> safe_session (setError msg w)"
  by (auto simp: safe_session_def setError_def emit_def)

lemma safe_executeConfirm:
  assumes "safe_session w" and "isConcrete i"
  shows "safe_session (executeConfirm i raw w)"
proof -
  have s1: "safe_session (case learnedContact i raw of None \<Rightarrow> w
              | Some c \<Rightarrow> emit (SaveContact c) (w\<lparr> contacts := saveVoiceContact c (contacts w) \<rparr>))"
    using assms(1) by (auto simp: safe_session_def emit_def split: option.splits)
  show ?thesis
    unfolding executeConfirm_def Let_def
    by (intro safe_emit safe_reset s1) (simp_all add: assms(2))
qed

lemma safe_cancel: "safe_session w \<Longrightarrow> safe_session (cancel w)"
  unfolding cancel_def by (intro safe_emit safe_reset) simp_all

lemma safe_confirm: "safe_session w \<Longrightarrow> safe_session (confirm w)"
proof (cases "pendingIntentRef w")
  case None
  assume "safe_session w"
  with None show ?thesis by (simp add: confirm_def)
next
  case (Some i)
  assume w: "safe_session w"
  with Some have "isConcrete i" by (simp add: safe_session_def)
  moreover have "safe_session (emit CancelSpeech w)" using w by (rule safe_emit) simp
  ultimately show ?thesis using Some by (simp add: confirm_def safe_executeConfirm)
qed

lemma safe_start_call:
  assumes "safe_session w" and "start_call isSupported w = (k, w')"
  shows "safe_session w'" and "held k = None"
  using assms
  by (auto simp: start_call_def listening_from_def safe_session_def setError_def emit_def
           split: if_splits)

lemma safe_on_command:
  assumes "safe_session w" and "on_command cmd w = (k, w')"
  shows "safe_session w' \<and> (\<forall>i. held k = Some i \<longrightarrow> isConcrete i)"
proof (cases "\<exists>i raw. k = AwaitReadback i raw")
  case True
  then obtain i raw where k: "k = AwaitReadback i raw" by blast
  with assms(2) have oc: "on_command cmd w = (AwaitReadback i raw, w')" by simp
  from on_command_readback(2) [OF oc] have c: "isConcrete i"
    using resolveIntent_concrete by blast
  from on_command_readback(3) [OF oc] assms(1) c have "safe_session w'"
    by (auto simp: safe_session_def emit_def)
  with k c show ?thesis by simp
next
  case False
  then have no: "\<And>i raw. k \<noteq> AwaitReadback i raw" by blast
  from on_command_stops [OF assms(2) no] have k: "k = Returned" by blast
  have "safe_session w'"
  proof (cases cmd)
    case (NotHeard err)
    with assms show ?thesis by (auto simp: on_command_def safe_setError)
  next
    case (Heard raw)
    let ?w1 = "w\<lparr> transcript := raw, transcriptRef := raw, state := processing \<rparr>"
    have w1: "safe_session ?w1" using assms(1) by (simp add: safe_session_def)
    from assms(2) Heard k have "\<exists>msg. w' = setError msg ?w1"
      by (auto simp: on_command_def Let_def readback_def
               split: sum.splits option.splits)
    with w1 show ?thesis using safe_setError by blast
  qed
  with k show ?thesis by simp
qed

lemma safe_on_answer:
  assumes "safe_session w" and "isConcrete i"
  shows "safe_session (on_answer i raw ans w)"
proof (cases ans)
  case (NotHeard err)
  with assms show ?thesis by (auto simp: on_answer_def safe_session_def emit_def)
next
  case (Heard response)
  show ?thesis
  proof (cases "re_test True yesRe (trim response)")
    case True
    with Heard show ?thesis by (simp add: on_answer_def safe_executeConfirm [OF assms])
  next
    case False
    have "safe_session (emit Dismiss (reset (emit (Speak ''Okay, no problem. Cancelled.'') w)))"
      using assms(1) by (intro safe_emit safe_reset) simp_all
    with False Heard show ?thesis by (simp add: on_answer_def)
  qed
qed

lemma safe_resume:
  assumes "safe_session w" and "\<And>i. held k = Some i \<Longrightarrow> isConcrete i"
    and "resume k x w = Some (k', w')"
  shows "safe_session w' \<and> (\<forall>i. held k' = Some i \<longrightarrow> isConcrete i)"
proof (cases k)
  case AwaitCommand
  with assms(3) obtain c where "x = Captured c" and "on_command c w = (k', w')"
    by (cases x) auto
  with safe_on_command [OF assms(1)] show ?thesis by blast
next
  case (AwaitReadback i raw)
  with assms(3) have "k' = AwaitAnswer i raw" and "w' = w\<lparr> state := awaiting_confirmation \<rparr>"
    by (cases x; auto simp: on_readback_def)+
  with assms(1,2) AwaitReadback show ?thesis by (simp add: safe_session_def)
next
  case (AwaitAnswer i raw)
  with assms(3) obtain c where "k' = Returned" and "w' = on_answer i raw c w"
    by (cases x) auto
  with assms(1,2) AwaitAnswer safe_on_answer show ?thesis by simp
next
  case Returned
  with assms(3) show ?thesis by simp
next
  case (Threw e)
  with assms(3) show ?thesis by simp
qed

lemma safe_step: "safe h \<Longrightarrow> safe (step e h)"
proof -
  assume h: "safe h"
  obtain ks w where hw: "h = (ks, w)" by (cases h)
  from h hw have w: "safe_session w"
    and ks: "\<And>k i. k \<in> set ks \<Longrightarrow> held k = Some i \<Longrightarrow> isConcrete i"
    by (auto simp: safe_iff)
  show ?thesis
  proof (cases e)
    case (CallStart isSupported)
    obtain k w' where sc: "start_call isSupported w = (k, w')"
      by (cases "start_call isSupported w")
    from safe_start_call [OF w sc] ks hw CallStart sc show ?thesis
      by (auto simp: safe_iff)
  next
    case (Settle n x)
    show ?thesis
    proof (cases "n < length ks")
      case False
      with h hw Settle show ?thesis by simp
    next
      case n: True
      show ?thesis
      proof (cases "resume (ks ! n) x w")
        case None
        with h hw Settle n show ?thesis by simp
      next
        case (Some kw)
        obtain k' w' where kw: "kw = (k', w')" by (cases kw)
        from n have "ks ! n \<in> set ks" by simp
        with ks have "\<And>i. held (ks ! n) = Some i \<Longrightarrow> isConcrete i" by blast
        from safe_resume [OF w this] Some kw
        have w': "safe_session w'" and k': "\<And>i. held k' = Some i \<Longrightarrow> isConcrete i"
          by auto
        have "\<And>k i. k \<in> set (ks[n := k']) \<Longrightarrow> held k = Some i \<Longrightarrow> isConcrete i"
          using ks k' set_update_subset_insert [of ks n k'] by blast
        moreover have "\<And>k i. k \<in> set (take n ks @ drop (Suc n) ks) \<Longrightarrow> held k = Some i \<Longrightarrow> isConcrete i"
          using ks by (auto dest: in_set_takeD in_set_dropD)
        ultimately show ?thesis
          using w' hw Settle n Some kw by (auto simp: safe_iff)
      qed
    qed
  next
    case TapConfirm
    with w ks hw show ?thesis by (auto simp: safe_iff safe_confirm)
  next
    case TapCancel
    with w ks hw show ?thesis by (auto simp: safe_iff safe_cancel)
  next
    case (EditContacts dir)
    with w ks hw show ?thesis by (auto simp: safe_iff safe_session_def)
  qed
qed

lemma safe_play: "safe h \<Longrightarrow> safe (play es h)"
  by (induction es arbitrary: h) (simp_all add: safe_step)

lemma safe_initial: "safe ([], initial dir)"
  by (simp add: safe_def initial_def)

lemma play_start:
  "snd (play [CallStart isSupported, Settle 0 (Captured command), Settle 0 Spoken,
              Settle 0 (Captured answer)] ([], w))
     = last (start isSupported command answer w)"
proof (cases isSupported)
  case False
  then show ?thesis by (simp add: start_unsupported start_call_def)
next
  case True
  obtain k w2 where oc: "on_command command (listening_from w) = (k, w2)"
    by (cases "on_command command (listening_from w)")
  show ?thesis
  proof (cases "\<exists>i raw. k = AwaitReadback i raw")
    case False
    then have no: "\<And>i raw. k \<noteq> AwaitReadback i raw" by blast
    from on_command_stops [OF oc no] have "k = Returned" by blast
    with True oc start_stopped [OF oc no, of answer] show ?thesis
      by (simp add: start_call_def)
  next
    case ex: True
    then obtain i raw where "k = AwaitReadback i raw" by blast
    with oc have oc': "on_command command (listening_from w) = (AwaitReadback i raw, w2)" by simp
    with True start_asked [OF oc', of answer] show ?thesis
      by (simp add: start_call_def on_readback_def)
  qed
qed

text \<open>
  What is read back and what can be pending. Whenever a call of \<^verbatim>\<open>start\<close> reads the
  command back, the intent read back and made pending is concrete; a NAMED_PAYMENT that
  resolves is rewritten by the type of its contact: a till to TILL, a paybill with an
  account number to PAYBILL, a pochi to POCHI, a mobile or untyped contact to
  SEND_MONEY. And in whatever order calls of \<^verbatim>\<open>start\<close>, the settling of their captures
  and readbacks, taps and edits come, no NAMED_PAYMENT is ever pending or submitted.
\<close>

lemma named_payment_rewritten:
  "(\<forall>cmd w i raw w'. on_command cmd w = (AwaitReadback i raw, w') \<longrightarrow>
        isConcrete i \<and> pendingIntent w' = Some i \<and> state w' = confirming
        \<and> effects w' = effects w @ [Speak (describeIntent i @ '' Say yes to confirm, or no to cancel.'')])
   \<and> (\<forall>dir a n r. resolveIntent dir (NAMED_PAYMENT a n) = Inr r \<longrightarrow>
        (\<exists>c. resolveContact dir n = Some c \<and>
           ((type c = Some Till \<and> r = TILL a (phone c))
            \<or> (type c = Some Paybill
                \<and> (\<exists>acc. accountNumber c = Some acc \<and> acc \<noteq> [] \<and> r = PAYBILL a (phone c) acc))
            \<or> (type c = Some Pochi \<and> r = POCHI a (phone c))
            \<or> ((type c = Some Mobile \<or> type c = None) \<and> r = SEND_MONEY a (phone c)))))
   \<and> (\<forall>es dir i.
        (pendingIntent (snd (play es ([], initial dir))) = Some i \<longrightarrow> isConcrete i)
        \<and> (Submit i \<in> set (effects (snd (play es ([], initial dir)))) \<longrightarrow> isConcrete i))"
proof (intro conjI allI impI)
  fix cmd w i raw w'
  assume oc: "on_command cmd w = (AwaitReadback i raw, w')"
  from on_command_readback(2) [OF oc] show "isConcrete i"
    using resolveIntent_concrete by blast
  from on_command_readback(3) [OF oc]
  show "pendingIntent w' = Some i" and "state w' = confirming"
    and "effects w' = effects w @ [Speak (describeIntent i @ '' Say yes to confirm, or no to cancel.'')]"
    by (simp_all add: emit_def)
next
  fix dir a n r
  assume "resolveIntent dir (NAMED_PAYMENT a n) = Inr r"
  then have "resolveNamed dir a n = Inr r" by (simp add: resolveIntent_def)
  then show "\<exists>c. resolveContact dir n = Some c \<and>
           ((type c = Some Till \<and> r = TILL a (phone c))
            \<or> (type c = Some Paybill
                \<and> (\<exists>acc. accountNumber c = Some acc \<and> acc \<noteq> [] \<and> r = PAYBILL a (phone c) acc))
            \<or> (type c = Some Pochi \<and> r = POCHI a (phone c))
            \<or> ((type c = Some Mobile \<or> type c = None) \<and> r = SEND_MONEY a (phone c)))"
    by (rule resolveNamed_rewrites)
next
  fix es dir i
  assume "pendingIntent (snd (play es ([], initial dir))) = Some i"
  with safe_play [OF safe_initial, of es dir] show "isConcrete i" by (simp add: safe_def)
next
  fix es dir i
  assume "Submit i \<in> set (effects (snd (play es ([], initial dir))))"
  with safe_play [OF safe_initial, of es dir] show "isConcrete i" by (simp add: safe_def)
qed

text \<open>
  C1. Whenever the state is \<open>confirming\<close> or \<open>awaiting_confirmation\<close>, the pending intent
  should be one of the five concrete variants. The code loses the pending intent when
  cancel is tapped while a call of \<^verbatim>\<open>start\<close> waits for its readback to end. The directory
  holds the paybill Kplc; the command "pay kplc 500" is captured, rewritten to a PAYBILL
  and made pending, the state \<open>confirming\<close>. The tap resets the hook: the state is
  \<open>idle\<close>, nothing is pending, and the call still waits. When the readback settles, the
  call sets the state to \<open>awaiting_confirmation\<close> (lines 173 and 205); when its capture
  then fails, to \<open>confirming\<close> (lines 178 and 210); in both nothing is pending.
\<close>

theorem pending_lost_after_cancel:
  "play named ([], initial [Kplc])
     = ([AwaitReadback (PAYBILL ''500'' ''888880'' ''1234'') ''pay kplc 500''],
        (initial [Kplc])\<lparr> state := confirming, transcript := ''pay kplc 500'',
           pendingIntent := Some (PAYBILL ''500'' ''888880'' ''1234''),
           pendingIntentRef := Some (PAYBILL ''500'' ''888880'' ''1234''),
           transcriptRef := ''pay kplc 500'',
           effects := [CancelSpeech,
             Speak ''Pay bill 888880, account 1234, amount 500 shillings. Say yes to confirm, or no to cancel.''] \<rparr>)
   \<and> state (snd (play (named @ [TapCancel]) ([], initial [Kplc]))) = idle
   \<and> fst (play (named @ [TapCancel]) ([], initial [Kplc]))
       = [AwaitReadback (PAYBILL ''500'' ''888880'' ''1234'') ''pay kplc 500'']
   \<and> state (snd (play (named @ [TapCancel, Settle 0 Spoken]) ([], initial [Kplc])))
       = awaiting_confirmation
   \<and> pendingIntent (snd (play (named @ [TapCancel, Settle 0 Spoken]) ([], initial [Kplc]))) = None
   \<and> state (snd (play (named @ [TapCancel, Settle 0 Spoken, Settle 0 (Captured (NotHeard None))])
                   ([], initial [Kplc]))) = confirming
   \<and> pendingIntent (snd (play (named @ [TapCancel, Settle 0 Spoken, Settle 0 (Captured (NotHeard None))])
                           ([], initial [Kplc]))) = None"
  by code_simp

text \<open>
  C2. When the command parses as a NAMED_PAYMENT whose name resolves to a paybill
  contact with no account number, the call of \<^verbatim>\<open>start\<close> passes through \<open>listening\<close>
  and returns in \<open>error\<close> with the message that asks for the account number, which is
  also spoken; nothing is saved or submitted, no intent is left pending, and a tap on
  confirm afterwards does nothing.
\<close>

theorem paybill_without_account:
  "\<forall>w raw a n c answer.
     parseIntent raw = Inr (Some (NAMED_PAYMENT a n))
     \<and> resolveContact (contacts w) n = Some c
     \<and> type c = Some Paybill \<and> accountNumber c = None \<longrightarrow>
     (\<exists>w1 w2. start True (Heard raw) answer w = [w1, w2]
        \<and> state w1 = listening \<and> state w2 = error
        \<and> errorMessage w2 = needsAccountMessage c a
        \<and> last (effects w2) = Speak (needsAccountMessage c a)
        \<and> executions w1 = executions w \<and> executions w2 = executions w
        \<and> pendingIntentRef w2 = None \<and> confirm w2 = w2)"
proof (intro allI impI)
  fix w :: session and raw a n c answer
  assume h: "parseIntent raw = Inr (Some (NAMED_PAYMENT a n))
     \<and> resolveContact (contacts w) n = Some c
     \<and> type c = Some Paybill \<and> accountNumber c = None"
  let ?w1 = "listening_from w"
  let ?w2 = "setError (needsAccountMessage c a)
               (?w1\<lparr> transcript := raw, transcriptRef := raw, state := processing \<rparr>)"
  from h have "resolveNamed (contacts ?w1) a n = Inl (needsAccountMessage c a)"
    by (simp add: resolveNamed_def listening_from_facts)
  with h have oc: "on_command (Heard raw) ?w1 = (Returned, ?w2)"
    by (simp add: on_command_def Let_def resolveIntent_def)
  then have run: "start True (Heard raw) answer w = [?w1, ?w2]"
    by (rule start_stopped) simp
  have "pendingIntentRef ?w2 = None"
    by (simp add: setError_def emit_def listening_from_facts)
  moreover from this have "confirm ?w2 = ?w2" by (simp add: confirm_def)
  moreover have "state ?w2 = error" "errorMessage ?w2 = needsAccountMessage c a"
    "last (effects ?w2) = Speak (needsAccountMessage c a)"
    by (simp_all add: setError_def emit_def)
  moreover have "executions ?w2 = executions w"
    by (simp add: setError_def emit_def executions_def listening_from_def)
  ultimately show "\<exists>w1 w2. start True (Heard raw) answer w = [w1, w2]
        \<and> state w1 = listening \<and> state w2 = error
        \<and> errorMessage w2 = needsAccountMessage c a
        \<and> last (effects w2) = Speak (needsAccountMessage c a)
        \<and> executions w1 = executions w \<and> executions w2 = executions w
        \<and> pendingIntentRef w2 = None \<and> confirm w2 = w2"
    using run listening_from_facts(1,6) by blast
qed

theorem paybill_without_account_witness:
  "parseIntent ''pay kplc 500'' = Inr (Some (NAMED_PAYMENT ''500'' ''kplc''))
   \<and> resolveContact (contacts (initial [KplcBare])) ''kplc'' = Some KplcBare
   \<and> type KplcBare = Some Paybill \<and> accountNumber KplcBare = None
   \<and> map state (start True (Heard ''pay kplc 500'') (Heard ''yes'') (initial [KplcBare]))
       = [listening, error]
   \<and> errorMessage (last (start True (Heard ''pay kplc 500'') (Heard ''yes'') (initial [KplcBare])))
       = ''Kplc needs an account number. Edit the contact to add one, or say: pay bill 888880 account <number> 500''
   \<and> executions (last (start True (Heard ''pay kplc 500'') (Heard ''yes'') (initial [KplcBare]))) = []"
proof -
  let ?run = "start True (Heard ''pay kplc 500'') (Heard ''yes'') (initial [KplcBare])"
  have h: "parseIntent ''pay kplc 500'' = Inr (Some (NAMED_PAYMENT ''500'' ''kplc''))
     \<and> resolveContact (contacts (initial [KplcBare])) ''kplc'' = Some KplcBare
     \<and> type KplcBare = Some Paybill \<and> accountNumber KplcBare = None"
    by code_simp
  have m: "needsAccountMessage KplcBare ''500''
     = ''Kplc needs an account number. Edit the contact to add one, or say: pay bill 888880 account <number> 500''"
    by code_simp
  have e: "executions (initial [KplcBare]) = []" by code_simp
  from paybill_without_account h
  obtain w1 w2 where "?run = [w1, w2]" "state w1 = listening" "state w2 = error"
    "errorMessage w2 = needsAccountMessage KplcBare ''500''"
    "executions w2 = executions (initial [KplcBare])"
    by blast
  with h m e show ?thesis by simp
qed

text \<open>
  C7. When a call of \<^verbatim>\<open>start\<close> has reached \<open>awaiting_confirmation\<close> and the capture of
  the answer fails, the call returns in \<open>confirming\<close>, not in \<open>error\<close>: the error message
  stays empty, the retry prompt is spoken, the pending intent and the directory are as
  they were, nothing is executed, and a tap on confirm then submits that intent.
\<close>

theorem answer_capture_failure:
  "\<forall>isSupported cmd err w w1 w2 w3 w4.
     start isSupported cmd (NotHeard err) w = [w1, w2, w3, w4] \<longrightarrow>
     state w3 = awaiting_confirmation
     \<and> w4 = emit (Speak ''I couldn't hear you. Tap yes or no on screen.'')
                 (w3\<lparr> state := confirming \<rparr>)
     \<and> state w4 = confirming \<and> state w4 \<noteq> error \<and> errorMessage w4 = []
     \<and> pendingIntent w4 = pendingIntent w3 \<and> pendingIntentRef w4 = pendingIntentRef w3
     \<and> contacts w4 = contacts w3 \<and> executions w4 = executions w3
     \<and> (\<exists>i. pendingIntent w4 = Some i \<and> last (effects (confirm w4)) = Submit i
              \<and> state (confirm w4) = idle)"
proof (intro allI impI)
  fix isSupported cmd err w w1 w2 w3 w4
  assume run: "start isSupported cmd (NotHeard err) w = [w1, w2, w3, w4]"
  from run obtain i raw where oc: "on_command cmd (listening_from w) = (AwaitReadback i raw, w2)"
    and w3: "w3 = w2\<lparr> state := awaiting_confirmation \<rparr>"
    and w4: "w4 = on_answer i raw (NotHeard err) w3"
    by (rule start_four) simp
  note aw = awaiting_state [OF oc w3]
  from w4 have eq: "w4 = emit (Speak ''I couldn't hear you. Tap yes or no on screen.'')
                 (w3\<lparr> state := confirming \<rparr>)"
    by (simp add: on_answer_def)
  then have ref: "pendingIntentRef w4 = Some i" and pend: "pendingIntent w4 = Some i"
    using aw by (simp_all add: emit_def)
  from ref have "confirm w4 = executeConfirm i (transcriptRef w4) (emit CancelSpeech w4)"
    by (simp add: confirm_def)
  then have "last (effects (confirm w4)) = Submit i" and "state (confirm w4) = idle"
    by (simp_all add: executeConfirm_last executeConfirm_state)
  with pend have tap: "\<exists>i. pendingIntent w4 = Some i \<and> last (effects (confirm w4)) = Submit i
              \<and> state (confirm w4) = idle"
    by blast
  from eq aw have rest: "state w4 = confirming" "state w4 \<noteq> error" "errorMessage w4 = []"
    "pendingIntent w4 = pendingIntent w3" "pendingIntentRef w4 = pendingIntentRef w3"
    "contacts w4 = contacts w3" "executions w4 = executions w3"
    by (simp_all add: emit_def executions_def)
  from aw(1) eq rest tap
  show "state w3 = awaiting_confirmation
     \<and> w4 = emit (Speak ''I couldn't hear you. Tap yes or no on screen.'')
                 (w3\<lparr> state := confirming \<rparr>)
     \<and> state w4 = confirming \<and> state w4 \<noteq> error \<and> errorMessage w4 = []
     \<and> pendingIntent w4 = pendingIntent w3 \<and> pendingIntentRef w4 = pendingIntentRef w3
     \<and> contacts w4 = contacts w3 \<and> executions w4 = executions w3
     \<and> (\<exists>i. pendingIntent w4 = Some i \<and> last (effects (confirm w4)) = Submit i
              \<and> state (confirm w4) = idle)"
    by (intro conjI)
qed

theorem answer_capture_failure_witness:
  "\<exists>w1 w2 w3 w4.
     start True (Heard ''send 500 to 0712345678'') (NotHeard None) (initial []) = [w1, w2, w3, w4]
     \<and> state w3 = awaiting_confirmation \<and> state w4 = confirming
     \<and> pendingIntent w4 = Some (SEND_MONEY ''500'' ''0712345678'')
     \<and> last (effects (confirm w4)) = Submit (SEND_MONEY ''500'' ''0712345678'')"
proof -
  have p: "parseIntent ''send 500 to 0712345678'' = Inr (Some (SEND_MONEY ''500'' ''0712345678''))"
    by code_simp
  have r: "resolveIntent (contacts (initial [])) (SEND_MONEY ''500'' ''0712345678'')
             = Inr (SEND_MONEY ''500'' ''0712345678'')"
    by code_simp
  from run_to_answer [OF p r, of "NotHeard None"]
  obtain w1 w2 w3 w4 where
    run: "start True (Heard ''send 500 to 0712345678'') (NotHeard None) (initial []) = [w1, w2, w3, w4]"
    and pend: "pendingIntent w3 = Some (SEND_MONEY ''500'' ''0712345678'')"
    by blast
  note fact = answer_capture_failure [rule_format, OF run]
  from fact have a: "state w3 = awaiting_confirmation" and b: "state w4 = confirming"
    and c: "pendingIntent w4 = pendingIntent w3" by blast+
  from fact obtain i where "pendingIntent w4 = Some i" and "last (effects (confirm w4)) = Submit i"
    by blast
  with c pend have d: "pendingIntent w4 = Some (SEND_MONEY ''500'' ''0712345678'')"
    and e: "last (effects (confirm w4)) = Submit (SEND_MONEY ''500'' ''0712345678'')"
    by simp_all
  from run a b d e show ?thesis by blast
qed

text \<open>
  Cancelling at \<open>awaiting_confirmation\<close>, the operations taken one after another. When
  the answer is an utterance the confirmation pattern does not match, such as "no", the
  call leaves the directory as it was when the session began and executes nothing (no
  contact is saved, no intent is submitted). The operation \<^verbatim>\<open>cancel\<close> applied in that
  state does the same, and nothing is pending afterwards, so a tap on confirm does
  nothing.
\<close>

lemma cancel_leaves_directory:
  "(\<forall>isSupported cmd r w w1 w2 w3 w4.
      start isSupported cmd (Heard r) w = [w1, w2, w3, w4] \<and> \<not> re_test True yesRe (trim r) \<longrightarrow>
      state w3 = awaiting_confirmation \<and> state w4 = idle \<and> pendingIntent w4 = None
      \<and> contacts w4 = contacts w \<and> executions w4 = executions w)
   \<and> (\<forall>isSupported cmd answer w w1 w2 w3 w4.
      start isSupported cmd answer w = [w1, w2, w3, w4] \<longrightarrow>
      state w3 = awaiting_confirmation \<and> state (cancel w3) = idle
      \<and> pendingIntent (cancel w3) = None
      \<and> contacts (cancel w3) = contacts w \<and> executions (cancel w3) = executions w
      \<and> effects (cancel w3) = effects w3 @ [CancelSpeech, Speak ''Okay, cancelled.'', Dismiss]
      \<and> confirm (cancel w3) = cancel w3)
   \<and> \<not> re_test True yesRe (trim ''no'')"
proof (intro conjI allI impI)
  fix isSupported cmd r w w1 w2 w3 w4
  assume h: "start isSupported cmd (Heard r) w = [w1, w2, w3, w4] \<and> \<not> re_test True yesRe (trim r)"
  then have run: "start isSupported cmd (Heard r) w = [w1, w2, w3, w4]" by simp
  from run obtain i raw where oc: "on_command cmd (listening_from w) = (AwaitReadback i raw, w2)"
    and w3: "w3 = w2\<lparr> state := awaiting_confirmation \<rparr>"
    and w4: "w4 = on_answer i raw (Heard r) w3"
    by (rule start_four) simp
  note aw = awaiting_state [OF oc w3]
  from h w4 have eq: "w4 = emit Dismiss (reset (emit (Speak ''Okay, no problem. Cancelled.'') w3))"
    by (simp add: on_answer_def)
  from aw show "state w3 = awaiting_confirmation" by simp
  from eq aw show "state w4 = idle" "pendingIntent w4 = None"
    "contacts w4 = contacts w" "executions w4 = executions w"
    by (simp_all add: cancelled_answer)
next
  fix isSupported cmd answer w w1 w2 w3 w4
  assume run: "start isSupported cmd answer w = [w1, w2, w3, w4]"
  from run obtain i raw where oc: "on_command cmd (listening_from w) = (AwaitReadback i raw, w2)"
    and w3: "w3 = w2\<lparr> state := awaiting_confirmation \<rparr>"
    by (rule start_four) simp
  note aw = awaiting_state [OF oc w3]
  from aw show "state w3 = awaiting_confirmation" by simp
  show "state (cancel w3) = idle" "pendingIntent (cancel w3) = None"
    "effects (cancel w3) = effects w3 @ [CancelSpeech, Speak ''Okay, cancelled.'', Dismiss]"
    by (simp_all add: cancel_facts)
  from aw show "contacts (cancel w3) = contacts w" "executions (cancel w3) = executions w"
    by (simp_all add: cancel_facts)
  show "confirm (cancel w3) = cancel w3"
    by (simp add: confirm_def cancel_facts)
next
  show "\<not> re_test True yesRe (trim ''no'')" by code_simp
qed

lemma cancel_leaves_directory_example:
  "\<exists>w1 w2 w3 w4.
     start True (Heard ''send 500 to David'') (Heard ''no'') (initial [David]) = [w1, w2, w3, w4]
     \<and> pendingIntent w3 = Some (SEND_MONEY ''500'' ''0712345678'')
     \<and> contacts w4 = [David] \<and> executions w4 = []
     \<and> state (cancel w3) = idle \<and> contacts (cancel w3) = [David] \<and> executions (cancel w3) = []"
proof -
  have p: "parseIntent ''send 500 to David'' = Inr (Some (SEND_MONEY ''500'' ''David''))"
    by code_simp
  have r: "resolveIntent (contacts (initial [David])) (SEND_MONEY ''500'' ''David'')
             = Inr (SEND_MONEY ''500'' ''0712345678'')"
    by code_simp
  have n: "\<not> re_test True yesRe (trim ''no'')" by code_simp
  have e: "executions (initial [David]) = []" "contacts (initial [David]) = [David]"
    by (simp_all add: executions_def initial_def)
  from run_to_answer [OF p r, of "Heard ''no''"]
  obtain w1 w2 w3 w4 where
    run: "start True (Heard ''send 500 to David'') (Heard ''no'') (initial [David]) = [w1, w2, w3, w4]"
    and pend: "pendingIntent w3 = Some (SEND_MONEY ''500'' ''0712345678'')"
    by blast
  note by_word = cancel_leaves_directory [THEN conjunct1, rule_format, OF conjI [OF run n]]
  note by_tap = cancel_leaves_directory [THEN conjunct2, THEN conjunct1, rule_format, OF run]
  from by_word e have a: "contacts w4 = [David]" "executions w4 = []" by simp_all
  from by_tap e have b: "state (cancel w3) = idle" "contacts (cancel w3) = [David]"
    "executions (cancel w3) = []" by simp_all
  from run pend a b show ?thesis by blast
qed

text \<open>
  The tap on cancel does not stop the call of \<^verbatim>\<open>start\<close> that waits for the answer
  (lines 176 and 208): \<^verbatim>\<open>cancel\<close> resets the hook, speaks and dismisses, and the capture
  stays pending. When it settles, the call resumes with the intent and the transcript it
  holds; an answer the confirmation pattern matches then executes and submits that
  intent, whatever the tap left in the hook.
\<close>

lemma answer_after_cancel:
  assumes "re_test True yesRe (trim r)"
  shows "on_answer i raw (Heard r) (cancel w) = executeConfirm i raw (cancel w)"
    and "last (effects (on_answer i raw (Heard r) (cancel w))) = Submit i"
  using assms by (simp_all add: on_answer_def executeConfirm_last)

text \<open>
  C8. A session cancelled at \<open>awaiting_confirmation\<close>, by the utterance "no" or by the
  manual cancel, should leave the directory unchanged and submit nothing. For the manual
  cancel the code does not. The directory holds David; the command "send 500 to dav" is
  captured and read back, and the hook is in \<open>awaiting_confirmation\<close> with the call
  waiting for the answer. A tap on cancel resets the hook and speaks "Okay, cancelled.",
  the directory and the effects unchanged otherwise, and the call still waits. Its
  capture then settles with "okay cancelled", which the confirmation pattern matches:
  the contact "dav" is saved to the directory and the intent is submitted.
\<close>

theorem cancel_then_answer_executes:
  "state (snd (play asked ([], initial [David]))) = awaiting_confirmation
   \<and> play (asked @ [TapCancel]) ([], initial [David])
       = ([AwaitAnswer (SEND_MONEY ''500'' ''0712345678'') ''send 500 to dav''],
          (initial [David])\<lparr> effects :=
             [CancelSpeech,
              Speak ''Send 500 shillings to 0712345678. Say yes to confirm, or no to cancel.'',
              CancelSpeech, Speak ''Okay, cancelled.'', Dismiss] \<rparr>)
   \<and> contacts (snd (play (asked @ [TapCancel, Settle 0 (Captured (Heard ''okay cancelled''))])
                      ([], initial [David])))
       = [David, \<lparr> name = ''dav'', type = Some Mobile, phone = ''0712345678'', accountNumber = None \<rparr>]
   \<and> executions (snd (play (asked @ [TapCancel, Settle 0 (Captured (Heard ''okay cancelled''))])
                        ([], initial [David])))
       = [SaveContact \<lparr> name = ''dav'', type = None, phone = ''0712345678'', accountNumber = None \<rparr>,
          Submit (SEND_MONEY ''500'' ''0712345678'')]"
  by code_simp

text \<open>
  C9. The confirmation pattern matches exactly the answers whose trimmed form begins,
  case ignored, with one of yes, yeah, yep, yup, confirm, send, do it, go, ok, okay; the
  word need not end there, so "yesterday" and "good" are matched. Such an answer makes
  the call execute and submit the pending intent; every other answer cancels: the
  cancellation is spoken, the session is reset and dismissed, and nothing is executed.
\<close>

theorem confirmation_by_prefix:
  "(\<forall>r. re_test True yesRe (trim r) \<longleftrightarrow> beginsWithYesWord (trim r))
   \<and> (\<forall>isSupported cmd r w w1 w2 w3 w4.
        start isSupported cmd (Heard r) w = [w1, w2, w3, w4] \<and> beginsWithYesWord (trim r) \<longrightarrow>
        state w3 = awaiting_confirmation
        \<and> (\<exists>i. pendingIntent w3 = Some i \<and> w4 = executeConfirm i (transcriptRef w3) w3
                \<and> last (effects w4) = Submit i))
   \<and> (\<forall>isSupported cmd r w w1 w2 w3 w4.
        start isSupported cmd (Heard r) w = [w1, w2, w3, w4] \<and> \<not> beginsWithYesWord (trim r) \<longrightarrow>
        state w3 = awaiting_confirmation
        \<and> w4 = emit Dismiss (reset (emit (Speak ''Okay, no problem. Cancelled.'') w3))
        \<and> executions w4 = executions w3 \<and> state w4 = idle \<and> pendingIntent w4 = None)
   \<and> beginsWithYesWord (trim ''yesterday'') \<and> beginsWithYesWord (trim ''good'')"
proof (intro conjI allI impI)
  fix r show "re_test True yesRe (trim r) \<longleftrightarrow> beginsWithYesWord (trim r)"
    by (rule yesRe_test)
next
  fix isSupported cmd r w w1 w2 w3 w4
  assume h: "start isSupported cmd (Heard r) w = [w1, w2, w3, w4] \<and> beginsWithYesWord (trim r)"
  then have run: "start isSupported cmd (Heard r) w = [w1, w2, w3, w4]" by simp
  from run obtain i raw where oc: "on_command cmd (listening_from w) = (AwaitReadback i raw, w2)"
    and w3: "w3 = w2\<lparr> state := awaiting_confirmation \<rparr>"
    and w4: "w4 = on_answer i raw (Heard r) w3"
    by (rule start_four) simp
  note aw = awaiting_state [OF oc w3]
  from h w4 have "w4 = executeConfirm i raw w3"
    by (simp add: on_answer_def yesRe_test)
  with aw show "state w3 = awaiting_confirmation"
    and "\<exists>i. pendingIntent w3 = Some i \<and> w4 = executeConfirm i (transcriptRef w3) w3
                \<and> last (effects w4) = Submit i"
    by (simp_all add: executeConfirm_last)
next
  fix isSupported cmd r w w1 w2 w3 w4
  assume h: "start isSupported cmd (Heard r) w = [w1, w2, w3, w4] \<and> \<not> beginsWithYesWord (trim r)"
  then have run: "start isSupported cmd (Heard r) w = [w1, w2, w3, w4]" by simp
  from run obtain i raw where oc: "on_command cmd (listening_from w) = (AwaitReadback i raw, w2)"
    and w3: "w3 = w2\<lparr> state := awaiting_confirmation \<rparr>"
    and w4: "w4 = on_answer i raw (Heard r) w3"
    by (rule start_four) simp
  note aw = awaiting_state [OF oc w3]
  from h w4 have eq: "w4 = emit Dismiss (reset (emit (Speak ''Okay, no problem. Cancelled.'') w3))"
    by (simp add: on_answer_def yesRe_test)
  from aw show "state w3 = awaiting_confirmation" by simp
  from eq show "w4 = emit Dismiss (reset (emit (Speak ''Okay, no problem. Cancelled.'') w3))" .
  from eq show "executions w4 = executions w3" "state w4 = idle" "pendingIntent w4 = None"
    by (simp_all add: cancelled_answer)
next
  show "beginsWithYesWord (trim ''yesterday'')" by code_simp
next
  show "beginsWithYesWord (trim ''good'')" by code_simp
qed

theorem confirmation_by_prefix_witness:
  "beginsWithYesWord (trim ''Good morning'')
   \<and> (\<exists>w1 w2 w3 w4.
         start True (Heard ''send 500 to 0712345678'') (Heard ''Good morning'') (initial [])
           = [w1, w2, w3, w4]
         \<and> pendingIntent w3 = Some (SEND_MONEY ''500'' ''0712345678'')
         \<and> last (effects w4) = Submit (SEND_MONEY ''500'' ''0712345678''))
   \<and> \<not> beginsWithYesWord (trim ''not today'')
   \<and> (\<exists>w1 w2 w3 w4.
         start True (Heard ''send 500 to 0712345678'') (Heard ''not today'') (initial [])
           = [w1, w2, w3, w4]
         \<and> executions w4 = [])"
proof -
  have p: "parseIntent ''send 500 to 0712345678'' = Inr (Some (SEND_MONEY ''500'' ''0712345678''))"
    by code_simp
  have r: "resolveIntent (contacts (initial [])) (SEND_MONEY ''500'' ''0712345678'')
             = Inr (SEND_MONEY ''500'' ''0712345678'')"
    by code_simp
  have yb: "beginsWithYesWord (trim ''Good morning'')" by code_simp
  have nb: "\<not> beginsWithYesWord (trim ''not today'')" by code_simp
  have e: "executions (initial []) = []" by (simp add: executions_def initial_def)
  note yes_part = confirmation_by_prefix [THEN conjunct2, THEN conjunct1, rule_format]
  note no_part = confirmation_by_prefix [THEN conjunct2, THEN conjunct2, THEN conjunct1, rule_format]
  from run_to_answer [OF p r, of "Heard ''Good morning''"]
  obtain w1 w2 w3 w4 where
    run: "start True (Heard ''send 500 to 0712345678'') (Heard ''Good morning'') (initial [])
            = [w1, w2, w3, w4]"
    and pend: "pendingIntent w3 = Some (SEND_MONEY ''500'' ''0712345678'')"
    by blast
  from yes_part [OF conjI [OF run yb]] pend
  have "last (effects w4) = Submit (SEND_MONEY ''500'' ''0712345678'')" by auto
  with run pend have y: "\<exists>w1 w2 w3 w4.
         start True (Heard ''send 500 to 0712345678'') (Heard ''Good morning'') (initial [])
           = [w1, w2, w3, w4]
         \<and> pendingIntent w3 = Some (SEND_MONEY ''500'' ''0712345678'')
         \<and> last (effects w4) = Submit (SEND_MONEY ''500'' ''0712345678'')"
    by blast
  from run_to_answer [OF p r, of "Heard ''not today''"]
  obtain v1 v2 v3 v4 where
    run': "start True (Heard ''send 500 to 0712345678'') (Heard ''not today'') (initial [])
            = [v1, v2, v3, v4]"
    and ex: "executions v3 = executions (initial [])"
    by blast
  from no_part [OF conjI [OF run' nb]]
  have "executions v4 = executions v3" by blast
  with ex e have "executions v4 = []" by simp
  with run' have n: "\<exists>w1 w2 w3 w4.
         start True (Heard ''send 500 to 0712345678'') (Heard ''not today'') (initial [])
           = [w1, w2, w3, w4]
         \<and> executions w4 = []"
    by blast
  from yb y nb n show ?thesis by (intro conjI)
qed

end
